theory Spec2Isabelle
  imports Main "HOL-Library.Word"
begin

unbundle bit_operations_syntax

section \<open>Version stamps and lock words of the transaction id header\<close>

text \<open>
  The header \<^verbatim>\<open>foedus/xct/xct_id.hpp\<close> defines the 64-bit version stamp
  \<^verbatim>\<open>XctId\<close>, the exclusive lock word \<^verbatim>\<open>McsLock\<close>, the reader-writer lock word
  \<^verbatim>\<open>McsRwLock\<close> and the 16-byte control words that pair a lock with a stamp.
  Every member function is translated as a function from the old object to the new one
  (and to the returned value, where there is one). Fields lose the trailing underscore
  of the C++ names (\<^verbatim>\<open>data_\<close> is \<open>data\<close>), which Isabelle reserves.
  \<^verbatim>\<open>ASSERT_ND\<close> is a debug-only assertion and compiles to nothing in a release build;
  the model leaves it out and the theorems carry the asserted conditions as hypotheses
  where the claim has them.
\<close>

subsection \<open>Integer types\<close>

type_synonym uint8_t = "8 word"
type_synonym uint16_t = "16 word"
type_synonym uint32_t = "32 word"
type_synonym uint64_t = "64 word"

text \<open>\<^verbatim>\<open>typedef uint32_t McsBlockIndex;\<close> Index in the thread-local MCS block, 0 means not locked.\<close>

type_synonym McsBlockIndex = uint32_t

text \<open>
  \<^verbatim>\<open>thread::ThreadId\<close> is declared in \<^verbatim>\<open>foedus/thread/thread_id.hpp\<close>; the layout comments
  of \<^verbatim>\<open>McsRwLock\<close> (\<^verbatim>\<open>next_writer_; // +2 => 6\<close>) and the constant
  \<^verbatim>\<open>kNextWriterNone = 0xFFFFU\<close> fix it as a 16-bit unsigned integer.
  \<^verbatim>\<open>Epoch::EpochInteger\<close> of \<^verbatim>\<open>foedus/epoch.hpp\<close> is a 32-bit unsigned integer.
\<close>

type_synonym ThreadId = uint16_t
type_synonym EpochInteger = uint32_t

subsection \<open>McsLock: the exclusive queue lock word\<close>

text \<open>
  \<^verbatim>\<open>const uint32_t kMcsGuestId = -1;\<close> When the lock word holds this value, the lock is
  held by a guest that has no context.
\<close>

definition kMcsGuestId :: uint32_t where
  "kMcsGuestId = - 1"

text \<open>The two 32-bit members \<^verbatim>\<open>data_\<close> and \<^verbatim>\<open>unused_\<close> of \<^verbatim>\<open>struct McsLock\<close>.\<close>

record McsLock =
  data :: uint32_t
  unused :: uint32_t

text \<open>
  \<^verbatim>\<open>return static_cast<uint32_t>(tail_waiter) << 16 | (tail_waiter_block & 0xFFFFU);\<close>
\<close>

definition McsLock_to_int :: "ThreadId \<Rightarrow> McsBlockIndex \<Rightarrow> uint32_t" where
  "McsLock_to_int tail_waiter tail_waiter_block =
     push_bit 16 (ucast tail_waiter) OR (tail_waiter_block AND 0xFFFF)"

text \<open>\<^verbatim>\<open>McsLock() { data_ = 0; unused_ = 0; }\<close>\<close>

definition McsLock_init :: McsLock where
  "McsLock_init = \<lparr>data = 0, unused = 0\<rparr>"

text \<open>\<^verbatim>\<open>reset(tail_waiter, tail_waiter_block)\<close>, used only for the initial lock.\<close>

definition McsLock_reset_to :: "ThreadId \<Rightarrow> McsBlockIndex \<Rightarrow> McsLock \<Rightarrow> McsLock" where
  "McsLock_reset_to tail_waiter tail_waiter_block l =
     l\<lparr>data := McsLock_to_int tail_waiter tail_waiter_block\<rparr>"

text \<open>
  \<^verbatim>\<open>McsLock(tail_waiter, tail_waiter_block) { reset(tail_waiter, tail_waiter_block); unused_ = 0; }\<close>
  The constructor writes both members, so the value it starts from does not matter.
\<close>

definition McsLock_make :: "ThreadId \<Rightarrow> McsBlockIndex \<Rightarrow> McsLock" where
  "McsLock_make tail_waiter tail_waiter_block =
     (McsLock_reset_to tail_waiter tail_waiter_block McsLock_init)\<lparr>unused := 0\<rparr>"

definition McsLock_is_locked :: "McsLock \<Rightarrow> bool" where
  "McsLock_is_locked l \<longleftrightarrow> (data l AND 0xFFFF) \<noteq> 0"

text \<open>\<^verbatim>\<open>return data_ >> 16U;\<close> converted to the 16-bit \<^verbatim>\<open>ThreadId\<close>.\<close>

definition McsLock_get_tail_waiter :: "McsLock \<Rightarrow> ThreadId" where
  "McsLock_get_tail_waiter l = ucast (drop_bit 16 (data l))"

definition McsLock_get_tail_waiter_block :: "McsLock \<Rightarrow> McsBlockIndex" where
  "McsLock_get_tail_waiter_block l = data l AND 0xFFFF"

text \<open>\<^verbatim>\<open>void reset() { data_ = 0; }\<close>, used only while page initialization.\<close>

definition McsLock_reset :: "McsLock \<Rightarrow> McsLock" where
  "McsLock_reset l = l\<lparr>data := 0\<rparr>"

definition McsLock_reset_guest_id_release :: "McsLock \<Rightarrow> McsLock" where
  "McsLock_reset_guest_id_release l = l\<lparr>data := kMcsGuestId\<rparr>"

subsection \<open>McsRwLock: the reader-writer queue lock word\<close>

text \<open>
  Modelled from the spec: \<^verbatim>\<open>assorted::raw_atomic_fetch_add\<close> of
  \<^verbatim>\<open>foedus/assorted/raw_atomics.hpp\<close> is not among the sources. The specification names
  the primitive a fetch-and-op performed on a single machine word: it adds the addendum
  to the target, wrapping around in the width of the type, and hands back the value the
  target held before. The model returns that value paired with the new content of the
  target; that no other thread intervenes between the read and the write is outside a
  sequential model.
\<close>

definition raw_atomic_fetch_add :: "'a::len word \<Rightarrow> 'a word \<Rightarrow> 'a word \<times> 'a word" where
  "raw_atomic_fetch_add target addendum = (target, target + addendum)"

text \<open>\<^verbatim>\<open>static const thread::ThreadId kNextWriterNone = 0xFFFFU;\<close>\<close>

definition kNextWriterNone :: ThreadId where
  "kNextWriterNone = 0xFFFF"

record McsRwLock =
  tail :: uint32_t
  next_writer :: ThreadId
  readers_count :: uint16_t

text \<open>\<^verbatim>\<open>tail_ = readers_count_ = 0; next_writer_ = kNextWriterNone;\<close>\<close>

definition McsRwLock_reset :: "McsRwLock \<Rightarrow> McsRwLock" where
  "McsRwLock_reset l = l\<lparr>readers_count := 0, tail := 0, next_writer := kNextWriterNone\<rparr>"

text \<open>\<^verbatim>\<open>raw_atomic_fetch_add<uint16_t>(&readers_count_, 1);\<close> with the result dropped.\<close>

definition increment_readers_count :: "McsRwLock \<Rightarrow> McsRwLock" where
  "increment_readers_count l =
     l\<lparr>readers_count := snd (raw_atomic_fetch_add (readers_count l) 1)\<rparr>"

text \<open>
  \<^verbatim>\<open>return raw_atomic_fetch_add<uint16_t>(&readers_count_, -1);\<close> The result is the
  returned value and the lock after the call; \<open>-1\<close> is converted to \<^verbatim>\<open>uint16_t\<close>.
\<close>

definition decrement_readers_count :: "McsRwLock \<Rightarrow> uint16_t \<times> McsRwLock" where
  "decrement_readers_count l =
     (let (previous, updated) = raw_atomic_fetch_add (readers_count l) (- 1)
      in (previous, l\<lparr>readers_count := updated\<rparr>))"

definition McsRwLock_is_locked :: "McsRwLock \<Rightarrow> bool" where
  "McsRwLock_is_locked l \<longleftrightarrow> (tail l AND 0xFFFF) \<noteq> 0"

definition has_next_writer :: "McsRwLock \<Rightarrow> bool" where
  "has_next_writer l \<longleftrightarrow> next_writer l \<noteq> kNextWriterNone"

subsection \<open>Constants of the version stamp\<close>

definition kXctIdDeletedBit :: uint64_t where
  "kXctIdDeletedBit = push_bit 63 1"

definition kXctIdMovedBit :: uint64_t where
  "kXctIdMovedBit = push_bit 62 1"

definition kXctIdBeingWrittenBit :: uint64_t where
  "kXctIdBeingWrittenBit = push_bit 61 1"

definition kXctIdNextLayerBit :: uint64_t where
  "kXctIdNextLayerBit = push_bit 60 1"

definition kXctIdMaskSerializer :: uint64_t where
  "kXctIdMaskSerializer = 0x0FFFFFFFFFFFFFFF"

definition kXctIdMaskEpoch :: uint64_t where
  "kXctIdMaskEpoch = 0x0FFFFFFF00000000"

definition kXctIdMaskOrdinal :: uint64_t where
  "kXctIdMaskOrdinal = 0x00000000FFFFFFFF"

definition kMaxXctOrdinal :: uint64_t where
  "kMaxXctOrdinal = push_bit 24 1 - 1"

subsection \<open>Epochs\<close>

text \<open>
  Modelled from the spec: the class \<^verbatim>\<open>Epoch\<close> of \<^verbatim>\<open>foedus/epoch.hpp\<close> (its constants
  \<^verbatim>\<open>kEpochInvalid\<close> and \<^verbatim>\<open>kEpochIntOverflow\<close>, \<^verbatim>\<open>operator<\<close> and \<^verbatim>\<open>before\<close>) is not among
  the sources. The specification gives: an epoch is a 28-bit counter; the value zero
  marks an invalid (never written) epoch and lies outside the cyclic order; the
  comparison is the half-space rule, \<open>a < b\<close> iff \<open>(b - a) mod 2\<^sup>2\<^sup>8 < 2\<^sup>2\<^sup>7\<close>; an invalid
  epoch is before everything else. \<^verbatim>\<open>XctId\<close> calls both comparisons only on two epochs
  that differ.
\<close>

definition kEpochInvalid :: EpochInteger where
  "kEpochInvalid = 0"

definition kEpochIntOverflow :: EpochInteger where
  "kEpochIntOverflow = push_bit 28 1"

definition Epoch_is_valid :: "EpochInteger \<Rightarrow> bool" where
  "Epoch_is_valid e \<longleftrightarrow> e \<noteq> kEpochInvalid"

definition Epoch_less :: "EpochInteger \<Rightarrow> EpochInteger \<Rightarrow> bool" where
  "Epoch_less a b \<longleftrightarrow> (uint b - uint a) mod 2 ^ 28 < (2 ^ 27 :: int)"

definition Epoch_before :: "EpochInteger \<Rightarrow> EpochInteger \<Rightarrow> bool" where
  "Epoch_before a b \<longleftrightarrow> (if \<not> Epoch_is_valid a then True else Epoch_less a b)"

subsection \<open>XctId: the persistent status part of a transaction id\<close>

record XctId =
  data :: uint64_t

text \<open>\<^verbatim>\<open>XctId() : data_(0) {}\<close>\<close>

definition XctId_init :: XctId where
  "XctId_init = \<lparr>data = 0\<rparr>"

text \<open>\<^verbatim>\<open>data_ = static_cast<uint64_t>(epoch_int) << 32 | ordinal;\<close>\<close>

definition XctId_set :: "EpochInteger \<Rightarrow> uint32_t \<Rightarrow> XctId \<Rightarrow> XctId" where
  "XctId_set epoch_int ordinal x = x\<lparr>data := push_bit 32 (ucast epoch_int) OR ucast ordinal\<rparr>"

text \<open>\<^verbatim>\<open>return (data_ & kXctIdMaskEpoch) >> 32;\<close> converted to the 32-bit result type.\<close>

definition get_epoch_int :: "XctId \<Rightarrow> EpochInteger" where
  "get_epoch_int x = ucast (drop_bit 32 (data x AND kXctIdMaskEpoch))"

text \<open>\<^verbatim>\<open>data_ = (data_ & ~kXctIdMaskEpoch) | (static_cast<uint64_t>(epoch_int) << 32);\<close>\<close>

definition set_epoch_int :: "EpochInteger \<Rightarrow> XctId \<Rightarrow> XctId" where
  "set_epoch_int epoch_int x =
     x\<lparr>data := (data x AND NOT kXctIdMaskEpoch) OR push_bit 32 (ucast epoch_int)\<rparr>"

text \<open>\<^verbatim>\<open>set_epoch(Epoch epoch) { set_epoch_int(epoch.value()); }\<close>: an epoch is its integer.\<close>

definition set_epoch :: "EpochInteger \<Rightarrow> XctId \<Rightarrow> XctId" where
  "set_epoch epoch x = set_epoch_int epoch x"

definition get_epoch :: "XctId \<Rightarrow> EpochInteger" where
  "get_epoch x = get_epoch_int x"

definition is_valid :: "XctId \<Rightarrow> bool" where
  "is_valid x \<longleftrightarrow> get_epoch_int x \<noteq> kEpochInvalid"

text \<open>\<^verbatim>\<open>return static_cast<uint32_t>(data_);\<close>\<close>

definition get_ordinal :: "XctId \<Rightarrow> uint32_t" where
  "get_ordinal x = ucast (data x)"

text \<open>\<^verbatim>\<open>data_ = (data_ & (~kXctIdMaskOrdinal)) | ordinal;\<close>\<close>

definition set_ordinal :: "uint32_t \<Rightarrow> XctId \<Rightarrow> XctId" where
  "set_ordinal ordinal x = x\<lparr>data := (data x AND NOT kXctIdMaskOrdinal) OR ucast ordinal\<rparr>"

definition increment_ordinal :: "XctId \<Rightarrow> XctId" where
  "increment_ordinal x = (let ordinal = get_ordinal x in set_ordinal (ordinal + 1) x)"

text \<open>
  \<^verbatim>\<open>compare_epoch_and_orginal\<close>: -1, 0, 1 when this is less than, same, larger than other
  in terms of epoch and ordinal. The second test of the epoch branch is only an assertion,
  so every pair of differing epochs that is not \<open><\<close> yields 1.
\<close>

definition compare_epoch_and_orginal :: "XctId \<Rightarrow> XctId \<Rightarrow> int" where
  "compare_epoch_and_orginal x other =
     (if get_epoch_int x \<noteq> get_epoch_int other then
        (let this_epoch = get_epoch x; other_epoch = get_epoch other in
         if Epoch_less this_epoch other_epoch then - 1 else 1)
      else if get_ordinal x < get_ordinal other then - 1
      else if get_ordinal x > get_ordinal other then 1
      else 0)"

definition set_being_written :: "XctId \<Rightarrow> XctId" where
  "set_being_written x = x\<lparr>data := data x OR kXctIdBeingWrittenBit\<rparr>"

definition set_write_complete :: "XctId \<Rightarrow> XctId" where
  "set_write_complete x = x\<lparr>data := data x AND NOT kXctIdBeingWrittenBit\<rparr>"

definition set_deleted :: "XctId \<Rightarrow> XctId" where
  "set_deleted x = x\<lparr>data := data x OR kXctIdDeletedBit\<rparr>"

definition set_notdeleted :: "XctId \<Rightarrow> XctId" where
  "set_notdeleted x = x\<lparr>data := data x AND NOT kXctIdDeletedBit\<rparr>"

definition set_moved :: "XctId \<Rightarrow> XctId" where
  "set_moved x = x\<lparr>data := data x OR kXctIdMovedBit\<rparr>"

text \<open>Delete-bit has no meaning for a next-layer record; the setter turns it off.\<close>

definition set_next_layer :: "XctId \<Rightarrow> XctId" where
  "set_next_layer x = x\<lparr>data := (data x AND NOT kXctIdDeletedBit) OR kXctIdNextLayerBit\<rparr>"

definition is_being_written :: "XctId \<Rightarrow> bool" where
  "is_being_written x \<longleftrightarrow> (data x AND kXctIdBeingWrittenBit) \<noteq> 0"

definition is_deleted :: "XctId \<Rightarrow> bool" where
  "is_deleted x \<longleftrightarrow> (data x AND kXctIdDeletedBit) \<noteq> 0"

definition is_moved :: "XctId \<Rightarrow> bool" where
  "is_moved x \<longleftrightarrow> (data x AND kXctIdMovedBit) \<noteq> 0"

definition is_next_layer :: "XctId \<Rightarrow> bool" where
  "is_next_layer x \<longleftrightarrow> (data x AND kXctIdNextLayerBit) \<noteq> 0"

definition needs_track_moved :: "XctId \<Rightarrow> bool" where
  "needs_track_moved x \<longleftrightarrow> (data x AND (kXctIdMovedBit OR kXctIdNextLayerBit)) \<noteq> 0"

text \<open>
  \<^verbatim>\<open>before\<close>: this stamp is before other in serialization order; epoch first, then
  ordinal.
\<close>

definition before :: "XctId \<Rightarrow> XctId \<Rightarrow> bool" where
  "before x other =
     (if get_epoch_int x \<noteq> get_epoch_int other
      then Epoch_before (get_epoch x) (get_epoch other)
      else get_ordinal x < get_ordinal other)"

text \<open>\<^verbatim>\<open>store_max\<close>: kind of \<^verbatim>\<open>std::max(this, other)\<close>; the result is the new value of this.\<close>

definition store_max :: "XctId \<Rightarrow> XctId \<Rightarrow> XctId" where
  "store_max x other =
     (if \<not> is_valid other then x
      else if before x other then other
      else x)"

definition clear_status_bits :: "XctId \<Rightarrow> XctId" where
  "clear_status_bits x = x\<lparr>data := data x AND kXctIdMaskSerializer\<rparr>"

text \<open>A stamp built from an epoch and an ordinal, as the scenarios of the specification write it.\<close>

definition stamp :: "EpochInteger \<Rightarrow> uint32_t \<Rightarrow> XctId" where
  "stamp epoch_int ordinal = XctId_set epoch_int ordinal XctId_init"

subsection \<open>RwLockableXctId: the reader-writer control word\<close>

text \<open>The first 64 bits are the locking part, the second 64 bits the version stamp.\<close>

record RwLockableXctId =
  lock :: McsRwLock
  xct_id :: XctId

text \<open>\<^verbatim>\<open>lock_.reset(); xct_id_.data_ = 0;\<close>, used only while page initialization.\<close>

definition RwLockableXctId_reset :: "RwLockableXctId \<Rightarrow> RwLockableXctId" where
  "RwLockableXctId_reset w = w\<lparr>lock := McsRwLock_reset (lock w), xct_id := (xct_id w)\<lparr>data := 0\<rparr>\<rparr>"

text \<open>The control word on a freshly zeroed page: every member is zero.\<close>

definition RwLockableXctId_zeroed :: RwLockableXctId where
  "RwLockableXctId_zeroed =
     \<lparr>lock = \<lparr>tail = 0, next_writer = 0, readers_count = 0\<rparr>, xct_id = \<lparr>data = 0\<rparr>\<rparr>"

text \<open>
  The number of epochs from the epoch of \<open>a\<close> forward to the epoch of \<open>b\<close> on the
  28-bit cycle; the half-space rule compares it with \<open>2\<^sup>2\<^sup>7\<close>.
\<close>

definition epoch_distance :: "XctId \<Rightarrow> XctId \<Rightarrow> int" where
  "epoch_distance a b = (uint (get_epoch_int b) - uint (get_epoch_int a)) mod 2 ^ 28"

subsection \<open>The exclusive queue lock under interleaving\<close>

text \<open>
  Modelled from the spec: \<^verbatim>\<open>McsLock::acquire_lock\<close> and \<^verbatim>\<open>McsLock::release_lock\<close> are only
  declared in the header; their bodies (\<^verbatim>\<open>thread_pimpl.cpp\<close>) are not among the sources.
  The model follows the protocol of the specification's section on the exclusive queue
  lock, one atomic access of shared memory per step.

  A queue node is named by the pair of its thread and its block index; block index 0 is
  the null sentinel, so \<open>(_, 0)\<close> stands for no node. The lock word's tail is such a pair,
  the pair that \<^verbatim>\<open>to_int\<close> packs into the 32-bit word. Block indexes are natural numbers:
  the pool is taken to hold an unused node whenever a thread asks for one. The ownerless
  variant and \<^verbatim>\<open>initial_lock\<close> are not part of the model.

  Where a thread stands:
  \<^item> \<open>Idle\<close>: outside acquire and release;
  \<^item> \<open>Enqueue\<close>: its node is prepared, the swap of the tail comes next;
  \<^item> \<open>Publish pred\<close>: the swap returned the previous tail \<open>pred\<close>, which is a node; writing
    itself into the successor field of \<open>pred\<close> comes next;
  \<^item> \<open>Spinning\<close>: spinning on its own flag;
  \<^item> \<open>Holding\<close>: acquire has returned and release has not been called;
  \<^item> \<open>ReleaseStart\<close>: release has been called, reading its node's successor comes next;
  \<^item> \<open>ReleaseCas\<close>: the successor was still empty, the compare-and-swap of the lock word
    comes next;
  \<^item> \<open>ReleaseWait\<close>: the compare-and-swap failed, spinning until the successor is populated;
  \<^item> \<open>Unblock succ\<close>: clearing the flag of the successor \<open>succ\<close> comes next.
\<close>

type_synonym McsNode = "ThreadId \<times> nat"

datatype McsPc =
    Idle
  | Enqueue
  | Publish McsNode
  | Spinning
  | Holding
  | ReleaseStart
  | ReleaseCas
  | ReleaseWait
  | Unblock McsNode

text \<open>
  The shared memory and the threads: the tail stored in the lock word, the successor
  field of every queue node, the per-thread flag a waiter spins on, the number of nodes
  each thread has taken from its pool (its current node is the last one taken), and
  where each thread stands.
\<close>

record McsSystem =
  mcs_tail :: McsNode
  mcs_successor :: "McsNode \<Rightarrow> McsNode"
  mcs_waiting :: "ThreadId \<Rightarrow> bool"
  mcs_blocks :: "ThreadId \<Rightarrow> nat"
  mcs_pc :: "ThreadId \<Rightarrow> McsPc"

definition no_node :: McsNode where
  "no_node = (0, 0)"

definition mcs_node :: "McsSystem \<Rightarrow> ThreadId \<Rightarrow> McsNode" where
  "mcs_node s t = (t, mcs_blocks s t)"

text \<open>
  The lock is born zero, no thread has taken a node and no thread is inside acquire or
  release.
\<close>

definition mcs_init :: McsSystem where
  "mcs_init = \<lparr>mcs_tail = no_node, mcs_successor = (\<lambda>n. no_node), mcs_waiting = (\<lambda>t. False),
     mcs_blocks = (\<lambda>t. 0), mcs_pc = (\<lambda>t. Idle)\<rparr>"

text \<open>
  Modelled from the spec: one step of thread \<open>t\<close> inside \<^verbatim>\<open>acquire_lock\<close> or \<^verbatim>\<open>release_lock\<close>,
  whose bodies are not among the sources. Acquire: (1) take the next unused node, empty
  its successor and raise the own flag (the specification does not say where the flag is
  raised; it has to be before the thread becomes visible to a predecessor); (2) swap the tail with the own
  node and read the previous tail; (3) if the previous tail was \<open>(_, 0)\<close> the thread owns
  the lock at once; (4) otherwise write the own node into the predecessor's successor
  field; (5) spin until the own flag is cleared. Release: (1) if the own node's successor
  is still \<open>(_, 0)\<close>, compare-and-swap the lock word from the own node to 0 and return if
  that succeeds; (2) if it fails, spin until the successor is populated; then, as when the
  successor was there from the start, clear the successor's flag. A thread that spins
  leaves the state as it is. A thread scheduled while \<open>Idle\<close> calls acquire, one scheduled
  while \<open>Holding\<close> calls release.
\<close>

definition thread_step :: "ThreadId \<Rightarrow> McsSystem \<Rightarrow> McsSystem" where
  "thread_step t s =
     (case mcs_pc s t of
        Idle \<Rightarrow>
          (let b = Suc (mcs_blocks s t) in
           s\<lparr>mcs_blocks := (mcs_blocks s)(t := b),
             mcs_successor := (mcs_successor s)((t, b) := no_node),
             mcs_waiting := (mcs_waiting s)(t := True),
             mcs_pc := (mcs_pc s)(t := Enqueue)\<rparr>)
      | Enqueue \<Rightarrow>
          (let pred = mcs_tail s in
           s\<lparr>mcs_tail := mcs_node s t,
             mcs_pc := (mcs_pc s)(t := if snd pred = 0 then Holding else Publish pred)\<rparr>)
      | Publish pred \<Rightarrow>
          s\<lparr>mcs_successor := (mcs_successor s)(pred := mcs_node s t),
            mcs_pc := (mcs_pc s)(t := Spinning)\<rparr>
      | Spinning \<Rightarrow>
          (if mcs_waiting s t then s else s\<lparr>mcs_pc := (mcs_pc s)(t := Holding)\<rparr>)
      | Holding \<Rightarrow> s\<lparr>mcs_pc := (mcs_pc s)(t := ReleaseStart)\<rparr>
      | ReleaseStart \<Rightarrow>
          (let succ = mcs_successor s (mcs_node s t) in
           s\<lparr>mcs_pc := (mcs_pc s)(t := if snd succ = 0 then ReleaseCas else Unblock succ)\<rparr>)
      | ReleaseCas \<Rightarrow>
          (if mcs_tail s = mcs_node s t
           then s\<lparr>mcs_tail := no_node, mcs_pc := (mcs_pc s)(t := Idle)\<rparr>
           else s\<lparr>mcs_pc := (mcs_pc s)(t := ReleaseWait)\<rparr>)
      | ReleaseWait \<Rightarrow>
          (let succ = mcs_successor s (mcs_node s t) in
           if snd succ = 0 then s else s\<lparr>mcs_pc := (mcs_pc s)(t := Unblock succ)\<rparr>)
      | Unblock succ \<Rightarrow>
          s\<lparr>mcs_waiting := (mcs_waiting s)(fst succ := False),
            mcs_pc := (mcs_pc s)(t := Idle)\<rparr>)"

text \<open>
  An interleaving is a schedule: the list of the threads in the order in which they take
  their steps.
\<close>

fun mcs_run :: "ThreadId list \<Rightarrow> McsSystem \<Rightarrow> McsSystem" where
  "mcs_run [] s = s"
| "mcs_run (t # schedule) s = mcs_run schedule (thread_step t s)"

text \<open>
  The holder: the thread between the return of its acquire and its call of release.
\<close>

definition is_holder :: "McsSystem \<Rightarrow> ThreadId \<Rightarrow> bool" where
  "is_holder s t \<longleftrightarrow> mcs_pc s t = Holding"

text \<open>
  The invariant of the proof. The threads that have swapped themselves into the tail and
  have not left form a queue \<open>q\<close> without repetition. The tail names the node of the last
  one, whose successor is empty. Each thread behind the head either has yet to publish
  itself to the node before it, whose successor is then empty, or is published there and
  spins with its flag raised. The head is past publishing, its flag is down if it still
  spins, and when it is about to unblock a node, that node is its successor.
\<close>

definition in_queue :: "McsPc \<Rightarrow> bool" where
  "in_queue c \<longleftrightarrow> c \<noteq> Idle \<and> c \<noteq> Enqueue"

definition queue_link :: "McsSystem \<Rightarrow> ThreadId \<Rightarrow> ThreadId \<Rightarrow> bool" where
  "queue_link s p t \<longleftrightarrow>
     (mcs_pc s t = Publish (mcs_node s p) \<and> snd (mcs_successor s (mcs_node s p)) = 0) \<or>
     (mcs_pc s t = Spinning \<and> mcs_waiting s t \<and> mcs_successor s (mcs_node s p) = mcs_node s t)"

fun queue_links :: "McsSystem \<Rightarrow> ThreadId \<Rightarrow> ThreadId list \<Rightarrow> bool" where
  "queue_links s p [] = True"
| "queue_links s p (t # r) = (queue_link s p t \<and> queue_links s t r)"

definition head_ok :: "McsSystem \<Rightarrow> ThreadId \<Rightarrow> bool" where
  "head_ok s h \<longleftrightarrow>
     (\<forall>p. mcs_pc s h \<noteq> Publish p) \<and>
     (mcs_pc s h = Spinning \<longrightarrow> \<not> mcs_waiting s h) \<and>
     (\<forall>n. mcs_pc s h = Unblock n \<longrightarrow> n = mcs_successor s (mcs_node s h) \<and> snd n \<noteq> 0)"

definition queue_shape :: "ThreadId list \<Rightarrow> McsSystem \<Rightarrow> bool" where
  "queue_shape q s \<longleftrightarrow>
     (case q of
        [] \<Rightarrow> snd (mcs_tail s) = 0
      | h # r \<Rightarrow>
          mcs_tail s = mcs_node s (last q) \<and>
          snd (mcs_successor s (mcs_node s (last q))) = 0 \<and>
          head_ok s h \<and> queue_links s h r)"

definition queue_basics :: "ThreadId list \<Rightarrow> McsSystem \<Rightarrow> bool" where
  "queue_basics q s \<longleftrightarrow>
     distinct q \<and>
     (\<forall>t. t \<in> set q \<longleftrightarrow> in_queue (mcs_pc s t)) \<and>
     (\<forall>t. mcs_pc s t \<noteq> Idle \<longrightarrow> 0 < mcs_blocks s t) \<and>
     (\<forall>t. mcs_pc s t = Enqueue \<longrightarrow>
          mcs_waiting s t \<and> snd (mcs_successor s (mcs_node s t)) = 0) \<and>
     (\<forall>t p. mcs_pc s t = Publish p \<longrightarrow> mcs_waiting s t)"

definition queue_inv :: "ThreadId list \<Rightarrow> McsSystem \<Rightarrow> bool" where
  "queue_inv q s \<longleftrightarrow> queue_basics q s \<and> queue_shape q s"

definition mcs_inv :: "McsSystem \<Rightarrow> bool" where
  "mcs_inv s \<longleftrightarrow> (\<exists>q. queue_inv q s)"

section \<open>Bits of the constants and of the accessors\<close>

lemma kXctIdMaskSerializer_mask: "kXctIdMaskSerializer = mask 60"
  by (simp add: kXctIdMaskSerializer_def mask_eq_exp_minus_1)

lemma kXctIdMaskEpoch_mask: "kXctIdMaskEpoch = push_bit 32 (mask 28)"
  by (simp add: kXctIdMaskEpoch_def mask_eq_exp_minus_1)

lemma kXctIdMaskOrdinal_mask: "kXctIdMaskOrdinal = mask 32"
  by (simp add: kXctIdMaskOrdinal_def mask_eq_exp_minus_1)

lemma and_flag_neq_0_iff: "(w AND push_bit n 1 \<noteq> 0) \<longleftrightarrow> bit w n" for w :: uint64_t
  by (simp only: push_bit_of_1 and_exp_eq_0_iff_not_bit not_not)

lemma bit_flag: "bit (push_bit m 1 :: uint64_t) n \<longleftrightarrow> m = n \<and> n < 64"
  by (auto simp add: bit_exp_iff)

lemma bit_kXctIdDeletedBit: "bit kXctIdDeletedBit n \<longleftrightarrow> n = 63"
  unfolding kXctIdDeletedBit_def bit_flag by auto

lemma bit_kXctIdMovedBit: "bit kXctIdMovedBit n \<longleftrightarrow> n = 62"
  unfolding kXctIdMovedBit_def bit_flag by auto

lemma bit_kXctIdBeingWrittenBit: "bit kXctIdBeingWrittenBit n \<longleftrightarrow> n = 61"
  unfolding kXctIdBeingWrittenBit_def bit_flag by auto

lemma bit_kXctIdNextLayerBit: "bit kXctIdNextLayerBit n \<longleftrightarrow> n = 60"
  unfolding kXctIdNextLayerBit_def bit_flag by auto

lemma bit_kXctIdMaskSerializer: "bit kXctIdMaskSerializer n \<longleftrightarrow> n < 60"
  unfolding kXctIdMaskSerializer_mask by (auto simp add: bit_simps)

lemma bit_kXctIdMaskEpoch: "bit kXctIdMaskEpoch n \<longleftrightarrow> 32 \<le> n \<and> n < 60"
  unfolding kXctIdMaskEpoch_mask by (auto simp add: bit_simps)

lemma bit_kXctIdMaskOrdinal: "bit kXctIdMaskOrdinal n \<longleftrightarrow> n < 32"
  unfolding kXctIdMaskOrdinal_mask by (auto simp add: bit_simps)

lemma is_deleted_bit: "is_deleted x \<longleftrightarrow> bit (data x) 63"
  by (simp only: is_deleted_def kXctIdDeletedBit_def and_flag_neq_0_iff)

lemma is_moved_bit: "is_moved x \<longleftrightarrow> bit (data x) 62"
  by (simp only: is_moved_def kXctIdMovedBit_def and_flag_neq_0_iff)

lemma is_being_written_bit: "is_being_written x \<longleftrightarrow> bit (data x) 61"
  by (simp only: is_being_written_def kXctIdBeingWrittenBit_def and_flag_neq_0_iff)

lemma is_next_layer_bit: "is_next_layer x \<longleftrightarrow> bit (data x) 60"
  by (simp only: is_next_layer_def kXctIdNextLayerBit_def and_flag_neq_0_iff)

lemmas flag_bits = is_deleted_bit is_moved_bit is_being_written_bit is_next_layer_bit

lemma bit_get_epoch_int: "bit (get_epoch_int x) n \<longleftrightarrow> n < 28 \<and> bit (data x) (32 + n)"
  by (auto simp add: get_epoch_int_def bit_kXctIdMaskEpoch bit_simps)

lemma bit_get_ordinal: "bit (get_ordinal x) n \<longleftrightarrow> n < 32 \<and> bit (data x) n"
  by (auto simp add: get_ordinal_def bit_simps)

lemma bit_clear_status_bits:
  "bit (data (clear_status_bits x)) n \<longleftrightarrow> n < 60 \<and> bit (data x) n"
  by (auto simp add: clear_status_bits_def bit_kXctIdMaskSerializer bit_simps)

lemma bit_set_next_layer:
  "bit (data (set_next_layer x)) n \<longleftrightarrow> n = 60 \<or> (n \<noteq> 63 \<and> bit (data x) n)"
  by (auto simp add: set_next_layer_def bit_kXctIdDeletedBit bit_kXctIdNextLayerBit bit_simps
      dest: bit_imp_le_length)

lemma get_epoch_int_clear_status_bits: "get_epoch_int (clear_status_bits x) = get_epoch_int x"
  by (rule bit_word_eqI) (auto simp add: bit_get_epoch_int bit_clear_status_bits)

lemma get_ordinal_clear_status_bits: "get_ordinal (clear_status_bits x) = get_ordinal x"
  by (rule bit_word_eqI) (auto simp add: bit_get_ordinal bit_clear_status_bits)

lemma get_epoch_int_set_next_layer: "get_epoch_int (set_next_layer x) = get_epoch_int x"
  by (rule bit_word_eqI) (auto simp add: bit_get_epoch_int bit_set_next_layer)

lemma get_ordinal_set_next_layer: "get_ordinal (set_next_layer x) = get_ordinal x"
  by (rule bit_word_eqI) (auto simp add: bit_get_ordinal bit_set_next_layer)

section \<open>The exclusive lock word\<close>

lemma low16_mask: "(0xFFFF :: uint32_t) = mask 16"
  by (simp add: mask_eq_exp_minus_1)

lemma bit_McsLock_to_int:
  "bit (McsLock_to_int t b) n \<longleftrightarrow>
     (n < 16 \<and> bit b n) \<or> (16 \<le> n \<and> n < 32 \<and> bit t (n - 16))"
  unfolding McsLock_to_int_def low16_mask
  by (auto simp add: bit_simps dest: bit_imp_le_length)

lemma and_low16_id:
  fixes b :: uint32_t
  assumes "b \<le> 0xFFFF"
  shows "b AND 0xFFFF = b"
proof -
  have "uint b < 2 ^ 16"
    using assms by (simp add: word_le_def)
  then have "b AND mask 16 = b"
    by (simp add: mask_eq_iff)
  then show ?thesis
    by (simp add: mask_eq_exp_minus_1)
qed

lemma data_McsLock_make: "McsLock.data (McsLock_make t b) = McsLock_to_int t b"
  by (simp add: McsLock_make_def McsLock_reset_to_def)

lemma get_tail_waiter_make: "McsLock_get_tail_waiter (McsLock_make t b) = t"
  unfolding McsLock_get_tail_waiter_def data_McsLock_make
  by (rule bit_word_eqI) (auto simp add: bit_simps bit_McsLock_to_int dest: bit_imp_le_length)

lemma get_tail_waiter_block_make:
  "McsLock_get_tail_waiter_block (McsLock_make t b) = b AND 0xFFFF"
  unfolding McsLock_get_tail_waiter_block_def data_McsLock_make low16_mask
  by (rule bit_word_eqI) (auto simp add: bit_simps bit_McsLock_to_int)

lemma drop_bit_McsLock_to_int: "drop_bit 16 (McsLock_to_int t b) = ucast t"
  by (rule bit_word_eqI) (auto simp add: bit_simps bit_McsLock_to_int dest: bit_imp_le_length)

lemma is_locked_iff_block: "McsLock_is_locked l \<longleftrightarrow> McsLock_get_tail_waiter_block l \<noteq> 0"
  by (simp add: McsLock_is_locked_def McsLock_get_tail_waiter_block_def)

text \<open>
  C8. For every 16-bit thread id \<open>t\<close> and every block index \<open>b \<le> 0xFFFF\<close>, the lock word
  packed from \<open>(t, b)\<close> holds \<open>b\<close> in its low 16 bits and \<open>t\<close> in the next 16 bits,
  \<^verbatim>\<open>get_tail_waiter\<close> and \<^verbatim>\<open>get_tail_waiter_block\<close> give back \<open>t\<close> and \<open>b\<close>, and the word is
  locked iff \<open>b\<close> is not zero. For every lock word, \<^verbatim>\<open>is_locked\<close> is true iff its low 16
  bits, the tail block, are not zero; the constructed and the reset lock are unlocked.
\<close>

theorem McsLock_pack_roundtrip:
  "b \<le> 0xFFFF \<Longrightarrow>
     McsLock.data (McsLock_make t b) AND 0xFFFF = b \<and>
     drop_bit 16 (McsLock.data (McsLock_make t b)) = ucast t \<and>
     McsLock_get_tail_waiter (McsLock_make t b) = t \<and>
     McsLock_get_tail_waiter_block (McsLock_make t b) = b \<and>
     (McsLock_is_locked (McsLock_make t b) \<longleftrightarrow> b \<noteq> 0) \<and>
     (McsLock_is_locked l \<longleftrightarrow> McsLock.data l AND 0xFFFF \<noteq> 0) \<and>
     (McsLock_is_locked l \<longleftrightarrow> McsLock_get_tail_waiter_block l \<noteq> 0) \<and>
     \<not> McsLock_is_locked McsLock_init \<and>
     \<not> McsLock_is_locked (McsLock_reset l)"
proof -
  assume le: "b \<le> 0xFFFF"
  have block: "McsLock_get_tail_waiter_block (McsLock_make t b) = b"
    using le by (simp add: get_tail_waiter_block_make and_low16_id)
  then have low: "McsLock.data (McsLock_make t b) AND 0xFFFF = b"
    by (simp add: McsLock_get_tail_waiter_block_def)
  have high: "drop_bit 16 (McsLock.data (McsLock_make t b)) = ucast t"
    by (simp add: data_McsLock_make drop_bit_McsLock_to_int)
  have locked: "McsLock_is_locked (McsLock_make t b) \<longleftrightarrow> b \<noteq> 0"
    by (simp add: is_locked_iff_block block)
  have any: "McsLock_is_locked l \<longleftrightarrow> McsLock.data l AND 0xFFFF \<noteq> 0"
    by (simp add: McsLock_is_locked_def)
  have fresh: "\<not> McsLock_is_locked McsLock_init"
    by (simp add: McsLock_is_locked_def McsLock_init_def)
  have reset: "\<not> McsLock_is_locked (McsLock_reset l)"
    by (simp add: McsLock_is_locked_def McsLock_reset_def)
  from block low high locked any fresh reset get_tail_waiter_make [of t b]
    is_locked_iff_block [of l]
  show ?thesis by blast
qed

theorem McsLock_pack_roundtrip_witness:
  "(0x1234 :: uint32_t) \<le> 0xFFFF \<and>
   McsLock_get_tail_waiter (McsLock_make 0xABCD 0x1234) = 0xABCD \<and>
   McsLock_get_tail_waiter_block (McsLock_make 0xABCD 0x1234) = 0x1234 \<and>
   McsLock_is_locked (McsLock_make 0xABCD 0x1234)"
proof -
  have h: "(0x1234 :: uint32_t) \<le> 0xFFFF" by simp
  show ?thesis
    using h McsLock_pack_roundtrip [OF h, of "0xABCD" McsLock_init] by simp
qed

section \<open>The reader-writer control word\<close>

text \<open>
  C5, as the claim states it: after \<^verbatim>\<open>reset\<close> every member of the lock half, \<^verbatim>\<open>next_writer\<close>
  included, is zero and the control word equals the zeroed one. It fails on the zeroed
  control word itself: \<^verbatim>\<open>McsRwLock::reset\<close> stores \<^verbatim>\<open>kNextWriterNone\<close> in \<^verbatim>\<open>next_writer_\<close>.
\<close>

theorem RwLockableXctId_reset_not_zero:
  "next_writer (lock (RwLockableXctId_reset RwLockableXctId_zeroed)) \<noteq> 0 \<and>
   RwLockableXctId_reset RwLockableXctId_zeroed \<noteq> RwLockableXctId_zeroed"
  by (simp add: RwLockableXctId_reset_def RwLockableXctId_zeroed_def McsRwLock_reset_def
      kNextWriterNone_def)

text \<open>
  C5, amended: after \<^verbatim>\<open>reset\<close> on a reader-writer control word the tail and the readers
  count of the lock half are zero and the version stamp is zero, while \<^verbatim>\<open>next_writer\<close> is
  \<open>0xFFFF\<close>, the marker for no next writer; the lock is then unlocked and has no next
  writer.
\<close>

theorem RwLockableXctId_reset_state:
  "tail (lock (RwLockableXctId_reset w)) = 0 \<and>
   readers_count (lock (RwLockableXctId_reset w)) = 0 \<and>
   next_writer (lock (RwLockableXctId_reset w)) = 0xFFFF \<and>
   data (xct_id (RwLockableXctId_reset w)) = 0 \<and>
   \<not> McsRwLock_is_locked (lock (RwLockableXctId_reset w)) \<and>
   \<not> has_next_writer (lock (RwLockableXctId_reset w))"
  by (simp add: RwLockableXctId_reset_def McsRwLock_reset_def kNextWriterNone_def
      McsRwLock_is_locked_def has_next_writer_def)

text \<open>
  C10. \<^verbatim>\<open>decrement_readers_count\<close> takes one from the readers count and returns the count
  as it was before the call, not the new one: the new count is zero exactly when the call
  returns 1, and the call returns 0 only when the count was 0 and has wrapped to
  \<open>0xFFFF\<close>. The other members are untouched. \<^verbatim>\<open>increment_readers_count\<close> adds one to the
  count and returns nothing.
\<close>

theorem decrement_readers_count_returns_previous:
  "fst (decrement_readers_count l) = readers_count l \<and>
   readers_count (snd (decrement_readers_count l)) = readers_count l - 1 \<and>
   tail (snd (decrement_readers_count l)) = tail l \<and>
   next_writer (snd (decrement_readers_count l)) = next_writer l \<and>
   (readers_count (snd (decrement_readers_count l)) = 0 \<longleftrightarrow>
      fst (decrement_readers_count l) = 1) \<and>
   (fst (decrement_readers_count l) = 0 \<longleftrightarrow>
      readers_count (snd (decrement_readers_count l)) = 0xFFFF) \<and>
   increment_readers_count l = l\<lparr>readers_count := readers_count l + 1\<rparr>"
  by (auto simp add: decrement_readers_count_def increment_readers_count_def
      raw_atomic_fetch_add_def)

section \<open>Status bits of the version stamp\<close>

text \<open>
  C6. For every version stamp, after \<^verbatim>\<open>clear_status_bits\<close> the four flags deleted, moved,
  being-written and next-layer read false, and the epoch and the ordinal are the ones
  the stamp had before.
\<close>

theorem clear_status_bits_frame:
  "\<not> is_deleted (clear_status_bits x) \<and>
   \<not> is_moved (clear_status_bits x) \<and>
   \<not> is_being_written (clear_status_bits x) \<and>
   \<not> is_next_layer (clear_status_bits x) \<and>
   get_epoch_int (clear_status_bits x) = get_epoch_int x \<and>
   get_ordinal (clear_status_bits x) = get_ordinal x"
  by (simp add: flag_bits bit_clear_status_bits get_epoch_int_clear_status_bits
      get_ordinal_clear_status_bits)

text \<open>
  C7. For every version stamp, whatever its deleted bit was, after \<^verbatim>\<open>set_next_layer\<close> the
  next-layer flag is true and the deleted flag is false, and the moved flag, the
  being-written flag, the epoch and the ordinal are unchanged.
\<close>

theorem set_next_layer_frame:
  "is_next_layer (set_next_layer x) \<and>
   \<not> is_deleted (set_next_layer x) \<and>
   is_moved (set_next_layer x) = is_moved x \<and>
   is_being_written (set_next_layer x) = is_being_written x \<and>
   get_epoch_int (set_next_layer x) = get_epoch_int x \<and>
   get_ordinal (set_next_layer x) = get_ordinal x"
  by (simp add: flag_bits bit_set_next_layer get_epoch_int_set_next_layer
      get_ordinal_set_next_layer)

section \<open>Setters of the version stamp, bit by bit\<close>

lemma bit_set_being_written:
  "bit (data (set_being_written x)) n \<longleftrightarrow> n = 61 \<or> bit (data x) n"
  by (auto simp add: set_being_written_def bit_kXctIdBeingWrittenBit bit_simps)

lemma bit_set_write_complete:
  "bit (data (set_write_complete x)) n \<longleftrightarrow> n \<noteq> 61 \<and> bit (data x) n"
  by (auto simp add: set_write_complete_def bit_kXctIdBeingWrittenBit bit_simps
      dest: bit_imp_le_length)

lemma bit_set_deleted:
  "bit (data (set_deleted x)) n \<longleftrightarrow> n = 63 \<or> bit (data x) n"
  by (auto simp add: set_deleted_def bit_kXctIdDeletedBit bit_simps)

lemma bit_set_notdeleted:
  "bit (data (set_notdeleted x)) n \<longleftrightarrow> n \<noteq> 63 \<and> bit (data x) n"
  by (auto simp add: set_notdeleted_def bit_kXctIdDeletedBit bit_simps
      dest: bit_imp_le_length)

lemma bit_set_moved:
  "bit (data (set_moved x)) n \<longleftrightarrow> n = 62 \<or> bit (data x) n"
  by (auto simp add: set_moved_def bit_kXctIdMovedBit bit_simps)

lemma bit_set_epoch:
  "bit (data (set_epoch e x)) n \<longleftrightarrow>
     (bit (data x) n \<and> \<not> (32 \<le> n \<and> n < 60)) \<or> (32 \<le> n \<and> n < 64 \<and> bit e (n - 32))"
  by (auto simp add: set_epoch_def set_epoch_int_def bit_kXctIdMaskEpoch bit_simps
      dest: bit_imp_le_length)

lemma bit_set_ordinal:
  "bit (data (set_ordinal k x)) n \<longleftrightarrow> (bit (data x) n \<and> 32 \<le> n) \<or> (n < 32 \<and> bit k n)"
  by (auto simp add: set_ordinal_def bit_kXctIdMaskOrdinal bit_simps
      dest: bit_imp_le_length)

lemma bit_increment_ordinal:
  "bit (data (increment_ordinal x)) n \<longleftrightarrow>
     (bit (data x) n \<and> 32 \<le> n) \<or> (n < 32 \<and> bit (get_ordinal x + 1) n)"
  by (simp add: increment_ordinal_def bit_set_ordinal)

lemmas setter_bits = bit_set_being_written bit_set_write_complete bit_set_deleted
  bit_set_notdeleted bit_set_moved bit_set_next_layer bit_set_epoch bit_set_ordinal
  bit_increment_ordinal

lemmas stamp_defs = stamp_def XctId_set_def XctId_init_def get_epoch_int_def get_ordinal_def
  kXctIdMaskEpoch_def is_valid_def kEpochInvalid_def

lemmas order_defs = before_def compare_epoch_and_orginal_def store_max_def get_epoch_def
  Epoch_before_def Epoch_is_valid_def Epoch_less_def

section \<open>Permanence of the next-layer and moved flags\<close>

text \<open>
  C4, as the claim states it: no operation of the version-stamp interface turns a true
  next-layer or moved flag back to false. It fails for two of the listed operations: on
  the stamp of epoch 1 and ordinal 1 with both flags set, \<^verbatim>\<open>clear_status_bits\<close> clears both
  flags, and \<^verbatim>\<open>store_max\<close> with the flag-free stamp of epoch 2 and ordinal 1 overwrites the
  stamp, flags included.
\<close>

theorem status_flags_not_monotone:
  "is_next_layer (set_moved (set_next_layer (stamp 1 1))) \<and>
   \<not> is_next_layer (clear_status_bits (set_moved (set_next_layer (stamp 1 1)))) \<and>
   is_moved (set_moved (set_next_layer (stamp 1 1))) \<and>
   \<not> is_moved (clear_status_bits (set_moved (set_next_layer (stamp 1 1)))) \<and>
   \<not> is_next_layer (store_max (set_moved (set_next_layer (stamp 1 1))) (stamp 2 1)) \<and>
   \<not> is_moved (store_max (set_moved (set_next_layer (stamp 1 1))) (stamp 2 1))"
  by (simp add: stamp_defs order_defs is_next_layer_def is_moved_def set_moved_def
      set_next_layer_def clear_status_bits_def kXctIdMovedBit_def kXctIdNextLayerBit_def
      kXctIdDeletedBit_def kXctIdMaskSerializer_def)

text \<open>
  C4, amended: the flag setters (\<^verbatim>\<open>set_being_written\<close>, \<^verbatim>\<open>set_write_complete\<close>,
  \<^verbatim>\<open>set_deleted\<close>, \<^verbatim>\<open>set_notdeleted\<close>, \<^verbatim>\<open>set_moved\<close>, \<^verbatim>\<open>set_next_layer\<close>), \<^verbatim>\<open>set_epoch\<close>,
  \<^verbatim>\<open>set_ordinal\<close> and \<^verbatim>\<open>increment_ordinal\<close> never turn a true next-layer flag or a true moved
  flag back to false. \<^verbatim>\<open>store_max\<close> leaves the stamp, and so both flags, as they are when
  the other stamp is invalid or the stamp is not before it, and otherwise replaces the
  stamp by the other one together with the other one's flags. \<^verbatim>\<open>clear_status_bits\<close>
  clears both flags.
\<close>

theorem status_flags_monotone:
  "f \<in> {set_being_written, set_write_complete, set_deleted, set_notdeleted, set_moved,
         set_next_layer, set_epoch e, set_ordinal k, increment_ordinal} \<Longrightarrow>
     (is_next_layer x \<longrightarrow> is_next_layer (f x)) \<and>
     (is_moved x \<longrightarrow> is_moved (f x)) \<and>
     (\<not> is_valid other \<or> \<not> before x other \<longrightarrow> store_max x other = x) \<and>
     (is_valid other \<and> before x other \<longrightarrow> store_max x other = other) \<and>
     \<not> is_next_layer (clear_status_bits x) \<and>
     \<not> is_moved (clear_status_bits x)"
proof -
  assume "f \<in> {set_being_written, set_write_complete, set_deleted, set_notdeleted, set_moved,
         set_next_layer, set_epoch e, set_ordinal k, increment_ordinal}"
  then have "bit (data x) 60 \<longrightarrow> bit (data (f x)) 60" and "bit (data x) 62 \<longrightarrow> bit (data (f x)) 62"
    by (auto simp add: setter_bits)
  then show ?thesis
    by (simp add: flag_bits bit_clear_status_bits store_max_def)
qed

theorem status_flags_monotone_witness:
  "set_deleted \<in> {set_being_written, set_write_complete, set_deleted, set_notdeleted, set_moved,
         set_next_layer, set_epoch 3, set_ordinal 4, increment_ordinal} \<and>
   is_next_layer (set_moved (set_next_layer (stamp 1 1))) \<and>
   is_next_layer (set_deleted (set_moved (set_next_layer (stamp 1 1)))) \<and>
   is_moved (set_moved (set_next_layer (stamp 1 1))) \<and>
   is_moved (set_deleted (set_moved (set_next_layer (stamp 1 1)))) \<and>
   is_valid (stamp 2 1) \<and> before (set_moved (set_next_layer (stamp 1 1))) (stamp 2 1) \<and>
   store_max (set_moved (set_next_layer (stamp 1 1))) (stamp 2 1) = stamp 2 1 \<and>
   \<not> before (set_moved (set_next_layer (stamp 1 1))) (stamp 1 1) \<and>
   store_max (set_moved (set_next_layer (stamp 1 1))) (stamp 1 1)
     = set_moved (set_next_layer (stamp 1 1))"
proof -
  have m: "set_deleted \<in> {set_being_written, set_write_complete, set_deleted, set_notdeleted,
      set_moved, set_next_layer, set_epoch 3, set_ordinal 4, increment_ordinal}"
    by simp
  have pre: "is_next_layer (set_moved (set_next_layer (stamp 1 1)))"
      "is_moved (set_moved (set_next_layer (stamp 1 1)))"
      "is_valid (stamp 2 1)" "before (set_moved (set_next_layer (stamp 1 1))) (stamp 2 1)"
      "\<not> before (set_moved (set_next_layer (stamp 1 1))) (stamp 1 1)"
    by (simp_all add: stamp_defs order_defs is_next_layer_def is_moved_def set_moved_def
      set_next_layer_def kXctIdMovedBit_def kXctIdNextLayerBit_def kXctIdDeletedBit_def)
  show ?thesis
    using m pre
      status_flags_monotone [OF m, of "set_moved (set_next_layer (stamp 1 1))" "stamp 2 1"]
      status_flags_monotone [OF m, of "set_moved (set_next_layer (stamp 1 1))" "stamp 1 1"]
    by blast
qed

section \<open>Epochs on the 28-bit cycle\<close>

lemma uint_get_epoch_int: "uint (get_epoch_int x) < 2 ^ 28"
proof -
  have "take_bit 28 (get_epoch_int x) = get_epoch_int x"
    by (rule bit_word_eqI) (auto simp add: bit_take_bit_iff bit_get_epoch_int)
  then have "uint (get_epoch_int x) = take_bit 28 (uint (get_epoch_int x))"
    by (metis unsigned_take_bit_eq)
  then show ?thesis
    by (metis take_bit_int_less_exp)
qed

lemma mod_cycle:
  fixes p q :: int
  assumes "0 \<le> p" "p < M" "0 \<le> q" "q < M"
  shows "(q - p) mod M = (if p \<le> q then q - p else q - p + M)"
proof (cases "p \<le> q")
  case True
  then show ?thesis
    using assms by simp
next
  case False
  then have "0 \<le> q - p + M" and "q - p + M < M"
    using assms by simp_all
  then have "(q - p + M) mod M = q - p + M"
    by (rule mod_pos_pos_trivial)
  moreover have "(q - p + M) mod M = (q - p) mod M"
    by (rule mod_add_self2)
  ultimately show ?thesis
    using False by simp
qed

lemma epoch_distance_cases:
  "epoch_distance a b =
     (if uint (get_epoch_int a) \<le> uint (get_epoch_int b)
      then uint (get_epoch_int b) - uint (get_epoch_int a)
      else uint (get_epoch_int b) - uint (get_epoch_int a) + 2 ^ 28)"
  unfolding epoch_distance_def
  using uint_get_epoch_int [of a] uint_get_epoch_int [of b]
  by (intro mod_cycle) simp_all

lemma Epoch_less_distance:
  "Epoch_less (get_epoch_int a) (get_epoch_int b) \<longleftrightarrow> epoch_distance a b < 2 ^ 27"
  by (simp add: Epoch_less_def epoch_distance_def)

lemma epoch_distance_flip:
  assumes "get_epoch_int a \<noteq> get_epoch_int b"
  shows "epoch_distance b a = 2 ^ 28 - epoch_distance a b" and "0 < epoch_distance a b"
proof -
  define p q where "p = uint (get_epoch_int a)" and "q = uint (get_epoch_int b)"
  have bounds: "0 \<le> p" "p < 2 ^ 28" "0 \<le> q" "q < 2 ^ 28"
    using uint_get_epoch_int [of a] uint_get_epoch_int [of b] by (simp_all add: p_def q_def)
  have ne: "p \<noteq> q"
    using assms by (simp add: p_def q_def word_uint_eq_iff)
  have ab: "epoch_distance a b = (if p \<le> q then q - p else q - p + 2 ^ 28)"
    unfolding p_def q_def by (rule epoch_distance_cases)
  have ba: "epoch_distance b a = (if q \<le> p then p - q else p - q + 2 ^ 28)"
    unfolding p_def q_def by (rule epoch_distance_cases)
  show "epoch_distance b a = 2 ^ 28 - epoch_distance a b"
    using bounds ne unfolding ab ba by (auto split: if_splits)
  show "0 < epoch_distance a b"
    using bounds ne unfolding ab by (auto split: if_splits)
qed

lemma Epoch_less_asym:
  assumes "get_epoch_int a \<noteq> get_epoch_int b"
    and "Epoch_less (get_epoch_int a) (get_epoch_int b)"
  shows "\<not> Epoch_less (get_epoch_int b) (get_epoch_int a)"
  using assms(2) epoch_distance_flip [OF assms(1)]
  by (simp add: Epoch_less_distance)

lemma Epoch_less_total:
  assumes "get_epoch_int a \<noteq> get_epoch_int b"
    and "epoch_distance a b \<noteq> 2 ^ 27"
    and "\<not> Epoch_less (get_epoch_int a) (get_epoch_int b)"
  shows "Epoch_less (get_epoch_int b) (get_epoch_int a)"
  using assms(2,3) epoch_distance_flip [OF assms(1)]
  by (simp add: Epoch_less_distance)

lemma epoch_distance_nonneg: "0 \<le> epoch_distance a b"
  by (simp add: epoch_distance_def)

lemma epoch_distance_0: "epoch_distance a b = 0 \<longleftrightarrow> get_epoch_int a = get_epoch_int b"
proof
  assume "epoch_distance a b = 0"
  then show "get_epoch_int a = get_epoch_int b"
    using epoch_distance_flip(2) [of a b] by auto
next
  assume "get_epoch_int a = get_epoch_int b"
  then show "epoch_distance a b = 0"
    by (simp add: epoch_distance_def)
qed

lemma epoch_distance_add:
  assumes "epoch_distance a b + epoch_distance b c < 2 ^ 27"
  shows "epoch_distance a c = epoch_distance a b + epoch_distance b c"
proof -
  have "epoch_distance a c =
      ((uint (get_epoch_int b) - uint (get_epoch_int a)) +
       (uint (get_epoch_int c) - uint (get_epoch_int b))) mod 2 ^ 28"
    by (simp add: epoch_distance_def)
  also have "\<dots> = (epoch_distance a b + epoch_distance b c) mod 2 ^ 28"
    unfolding epoch_distance_def by (rule mod_add_eq [symmetric])
  also have "\<dots> = epoch_distance a b + epoch_distance b c"
    using assms epoch_distance_nonneg [of a b] epoch_distance_nonneg [of b c]
    by (intro mod_pos_pos_trivial) simp_all
  finally show ?thesis .
qed

lemma before_iff:
  "is_valid y \<Longrightarrow> before x y \<longleftrightarrow> \<not> is_valid x \<or> compare_epoch_and_orginal x y < 0"
  by (auto simp add: before_def compare_epoch_and_orginal_def is_valid_def Epoch_before_def
      Epoch_is_valid_def get_epoch_def)

lemma before_irrefl: "\<not> before x x"
  by (simp add: before_def)

lemma compare_refl: "compare_epoch_and_orginal x x = 0"
  by (simp add: compare_epoch_and_orginal_def)

lemma compare_flip_nonneg:
  assumes "compare_epoch_and_orginal x y < 0"
  shows "0 \<le> compare_epoch_and_orginal y x"
proof (cases "get_epoch_int x = get_epoch_int y")
  case True
  then show ?thesis
    using assms by (auto simp add: compare_epoch_and_orginal_def split: if_splits)
next
  case False
  then have "Epoch_less (get_epoch_int x) (get_epoch_int y)"
    using assms by (auto simp add: compare_epoch_and_orginal_def get_epoch_def split: if_splits)
  then have "\<not> Epoch_less (get_epoch_int y) (get_epoch_int x)"
    by (rule Epoch_less_asym [OF False])
  then show ?thesis
    using False by (auto simp add: compare_epoch_and_orginal_def get_epoch_def)
qed

lemma store_max_is_max:
  assumes "is_valid x" "is_valid y"
  shows "0 \<le> compare_epoch_and_orginal (store_max x y) x \<and>
         0 \<le> compare_epoch_and_orginal (store_max x y) y"
proof (cases "before x y")
  case True
  then have "compare_epoch_and_orginal x y < 0"
    using assms by (simp add: before_iff)
  then have "0 \<le> compare_epoch_and_orginal y x"
    by (rule compare_flip_nonneg)
  then show ?thesis
    using True assms by (simp add: store_max_def compare_refl)
next
  case False
  then have "\<not> compare_epoch_and_orginal x y < 0"
    using assms by (simp add: before_iff)
  then show ?thesis
    using False assms by (simp add: store_max_def compare_refl)
qed

lemma compare_antisym:
  assumes "epoch_distance a b \<noteq> 2 ^ 27"
  shows "compare_epoch_and_orginal a b = - compare_epoch_and_orginal b a"
proof (cases "get_epoch_int a = get_epoch_int b")
  case True
  then show ?thesis
    by (auto simp add: compare_epoch_and_orginal_def)
next
  case False
  then have "Epoch_less (get_epoch_int a) (get_epoch_int b) \<longleftrightarrow>
      \<not> Epoch_less (get_epoch_int b) (get_epoch_int a)"
    using assms Epoch_less_asym [of a b] Epoch_less_total [of a b] by blast
  with False show ?thesis
    by (auto simp add: compare_epoch_and_orginal_def get_epoch_def)
qed

lemma compare_le_0_iff:
  "compare_epoch_and_orginal a b \<le> 0 \<longleftrightarrow>
     (if get_epoch_int a \<noteq> get_epoch_int b then epoch_distance a b < 2 ^ 27
      else get_ordinal a \<le> get_ordinal b)"
  by (auto simp add: compare_epoch_and_orginal_def get_epoch_def Epoch_less_distance)

lemma compare_trans:
  assumes ab: "compare_epoch_and_orginal a b \<le> 0"
    and bc: "compare_epoch_and_orginal b c \<le> 0"
    and window: "epoch_distance a b + epoch_distance b c < 2 ^ 27"
  shows "compare_epoch_and_orginal a c \<le> 0"
proof (cases "get_epoch_int a = get_epoch_int c")
  case True
  then have "epoch_distance a c = 0"
    by (simp add: epoch_distance_0)
  then have "epoch_distance a b + epoch_distance b c = 0"
    using epoch_distance_add [OF window] by simp
  then have "epoch_distance a b = 0" and "epoch_distance b c = 0"
    using epoch_distance_nonneg [of a b] epoch_distance_nonneg [of b c] by simp_all
  then have eq: "get_epoch_int a = get_epoch_int b" "get_epoch_int b = get_epoch_int c"
    by (simp_all add: epoch_distance_0)
  then have "get_ordinal a \<le> get_ordinal b" and "get_ordinal b \<le> get_ordinal c"
    using ab bc by (simp_all add: compare_le_0_iff)
  then have "get_ordinal a \<le> get_ordinal c"
    by (rule order_trans)
  then show ?thesis
    using True by (simp add: compare_le_0_iff)
next
  case False
  have "epoch_distance a c < 2 ^ 27"
    using epoch_distance_add [OF window] window by simp
  then show ?thesis
    using False by (simp add: compare_le_0_iff)
qed

section \<open>Serialization order of version stamps\<close>

text \<open>
  C2. For every stamp \<open>x\<close> and every valid stamp \<open>y\<close>, \<open>x\<close> is before \<open>y\<close> iff \<open>x\<close> is
  invalid or the comparison of \<open>x\<close> with \<open>y\<close> is negative, and no valid stamp is before
  itself. With \<open>a = (7, 100)\<close>, \<open>b = (7, 101)\<close>, \<open>c = (8, 1)\<close> and \<open>z = (0, 0)\<close>: \<open>a\<close> is before
  \<open>b\<close>, \<open>b\<close> is before \<open>c\<close>, \<open>c\<close> is not before \<open>a\<close>, \<open>z\<close> is before \<open>a\<close>, and \<open>a\<close> is not
  before \<open>z\<close>, which is invalid.
\<close>

theorem before_spec:
  "(is_valid y \<longrightarrow> (before x y \<longleftrightarrow> \<not> is_valid x \<or> compare_epoch_and_orginal x y < 0)) \<and>
   (is_valid x \<longrightarrow> \<not> before x x) \<and>
   before (stamp 7 100) (stamp 7 101) \<and>
   before (stamp 7 101) (stamp 8 1) \<and>
   \<not> before (stamp 8 1) (stamp 7 100) \<and>
   before (stamp 0 0) (stamp 7 100) \<and>
   \<not> before (stamp 7 100) (stamp 0 0) \<and>
   \<not> is_valid (stamp 0 0)"
proof -
  have scenario: "before (stamp 7 100) (stamp 7 101) \<and>
      before (stamp 7 101) (stamp 8 1) \<and>
      \<not> before (stamp 8 1) (stamp 7 100) \<and>
      before (stamp 0 0) (stamp 7 100) \<and>
      \<not> before (stamp 7 100) (stamp 0 0) \<and>
      \<not> is_valid (stamp 0 0)"
    by (simp add: stamp_defs order_defs)
  from scenario before_iff [of y x] before_irrefl [of x] show ?thesis
    by blast
qed

theorem before_spec_witness:
  "is_valid (stamp 7 100) \<and> is_valid (stamp 8 1) \<and>
   before (stamp 7 100) (stamp 8 1) \<and>
   compare_epoch_and_orginal (stamp 7 100) (stamp 8 1) < 0 \<and>
   \<not> before (stamp 7 100) (stamp 7 100) \<and>
   \<not> is_valid (stamp 0 0) \<and> before (stamp 0 0) (stamp 8 1)"
proof -
  have pre: "is_valid (stamp 7 100)" "is_valid (stamp 8 1)" "\<not> is_valid (stamp 0 0)"
      "compare_epoch_and_orginal (stamp 7 100) (stamp 8 1) < 0"
    by (simp_all add: stamp_defs order_defs)
  show ?thesis
    using pre before_spec [of "stamp 8 1" "stamp 7 100"] before_spec [of "stamp 8 1" "stamp 0 0"]
      before_spec [of "stamp 7 100" "stamp 7 100"]
    by simp
qed

text \<open>
  C1. \<^verbatim>\<open>store_max\<close> leaves the stamp unchanged when the other stamp is invalid; when the
  other stamp is valid, the stamp becomes a copy of it if the stamp is before it, and is
  unchanged otherwise. The result is one of the two stamps and, for two valid stamps, it
  compares greater than or equal to both; \<^verbatim>\<open>store_max\<close> of a stamp with itself changes
  nothing. From \<open>(5, 200)\<close>: \<^verbatim>\<open>store_max\<close> with \<open>(5, 199)\<close> leaves \<open>(5, 200)\<close>, with \<open>(6, 1)\<close>
  gives \<open>(6, 1)\<close>, and then with \<open>(0, 0)\<close> leaves \<open>(6, 1)\<close>.
\<close>

theorem store_max_spec:
  "(\<not> is_valid y \<longrightarrow> store_max x y = x) \<and>
   (is_valid y \<longrightarrow> store_max x y = (if before x y then y else x)) \<and>
   (\<not> is_valid x \<and> is_valid y \<longrightarrow> store_max x y = y) \<and>
   (is_valid x \<and> is_valid y \<longrightarrow>
      0 \<le> compare_epoch_and_orginal (store_max x y) x \<and>
      0 \<le> compare_epoch_and_orginal (store_max x y) y) \<and>
   (store_max x y = x \<or> store_max x y = y) \<and>
   store_max x x = x \<and>
   store_max (stamp 5 200) (stamp 5 199) = stamp 5 200 \<and>
   store_max (stamp 5 200) (stamp 6 1) = stamp 6 1 \<and>
   store_max (stamp 6 1) (stamp 0 0) = stamp 6 1"
proof -
  have general: "(\<not> is_valid y \<longrightarrow> store_max x y = x) \<and>
      (is_valid y \<longrightarrow> store_max x y = (if before x y then y else x)) \<and>
      (store_max x y = x \<or> store_max x y = y) \<and> store_max x x = x"
    by (simp add: store_max_def before_irrefl)
  have scenario: "store_max (stamp 5 200) (stamp 5 199) = stamp 5 200 \<and>
      store_max (stamp 5 200) (stamp 6 1) = stamp 6 1 \<and>
      store_max (stamp 6 1) (stamp 0 0) = stamp 6 1"
    by (simp add: stamp_defs order_defs)
  have invalid: "\<not> is_valid x \<and> is_valid y \<longrightarrow> store_max x y = y"
    by (simp add: store_max_def before_iff)
  from general invalid scenario store_max_is_max [of x y] show ?thesis
    by blast
qed

theorem store_max_spec_witness:
  "is_valid (stamp 5 200) \<and> is_valid (stamp 6 1) \<and> before (stamp 5 200) (stamp 6 1) \<and>
   store_max (stamp 5 200) (stamp 6 1) = stamp 6 1 \<and>
   0 \<le> compare_epoch_and_orginal (store_max (stamp 5 200) (stamp 6 1)) (stamp 5 200) \<and>
   0 \<le> compare_epoch_and_orginal (store_max (stamp 5 200) (stamp 6 1)) (stamp 6 1) \<and>
   \<not> is_valid (stamp 0 0) \<and> store_max (stamp 6 1) (stamp 0 0) = stamp 6 1"
proof -
  have pre: "is_valid (stamp 5 200)" "is_valid (stamp 6 1)" "before (stamp 5 200) (stamp 6 1)"
      "\<not> is_valid (stamp 0 0)"
    by (simp_all add: stamp_defs order_defs)
  show ?thesis
    using pre store_max_spec [of "stamp 6 1" "stamp 5 200"]
      store_max_spec [of "stamp 0 0" "stamp 6 1"]
    by simp
qed

text \<open>
  C3, as the claim states it: on valid stamps with non-zero ordinals the comparison is
  antisymmetric and transitive, the epochs being ordered by the half-space rule. Both
  fail on the cycle: the epochs \<open>1\<close> and \<open>2\<^sup>2\<^sup>7 + 1\<close> are exactly half a cycle apart, neither
  precedes the other and the comparison gives 1 in both directions; and \<open>1\<close> precedes
  \<open>2\<^sup>2\<^sup>7\<close>, which precedes \<open>2\<^sup>2\<^sup>8 - 1\<close>, which in turn precedes \<open>1\<close>.
\<close>

theorem compare_not_antisymmetric_nor_transitive:
  "is_valid (stamp 1 1) \<and> is_valid (stamp 0x8000000 1) \<and> is_valid (stamp 0x8000001 1) \<and>
   is_valid (stamp 0xFFFFFFF 1) \<and> get_ordinal (stamp 1 1) \<noteq> 0 \<and>
   get_ordinal (stamp 0x8000000 1) \<noteq> 0 \<and> get_ordinal (stamp 0x8000001 1) \<noteq> 0 \<and>
   get_ordinal (stamp 0xFFFFFFF 1) \<noteq> 0 \<and>
   compare_epoch_and_orginal (stamp 1 1) (stamp 0x8000001 1)
     \<noteq> - compare_epoch_and_orginal (stamp 0x8000001 1) (stamp 1 1) \<and>
   compare_epoch_and_orginal (stamp 1 1) (stamp 0x8000000 1) \<le> 0 \<and>
   compare_epoch_and_orginal (stamp 0x8000000 1) (stamp 0xFFFFFFF 1) \<le> 0 \<and>
   \<not> compare_epoch_and_orginal (stamp 1 1) (stamp 0xFFFFFFF 1) \<le> 0"
  by (simp add: stamp_defs order_defs)

text \<open>
  C3, amended: for valid stamps \<open>a\<close>, \<open>b\<close>, \<open>c\<close> with non-zero ordinals, the comparison of
  \<open>a\<close> with \<open>b\<close> is the negation of the comparison of \<open>b\<close> with \<open>a\<close> whenever their epochs
  are not exactly half a cycle apart; \<open>a \<le> b\<close> and \<open>b \<le> c\<close> give \<open>a \<le> c\<close> whenever the
  forward epoch distances from \<open>a\<close> to \<open>b\<close> and from \<open>b\<close> to \<open>c\<close> add up to less than
  \<open>2\<^sup>2\<^sup>7\<close>; and for two different epochs the comparison is negative iff
  \<open>(epoch b - epoch a) mod 2\<^sup>2\<^sup>8 < 2\<^sup>2\<^sup>7\<close>.
\<close>

theorem compare_order_within_half_cycle:
  "is_valid a \<Longrightarrow> is_valid b \<Longrightarrow> is_valid c \<Longrightarrow>
   get_ordinal a \<noteq> 0 \<Longrightarrow> get_ordinal b \<noteq> 0 \<Longrightarrow> get_ordinal c \<noteq> 0 \<Longrightarrow>
     (epoch_distance a b \<noteq> 2 ^ 27 \<longrightarrow>
        compare_epoch_and_orginal a b = - compare_epoch_and_orginal b a) \<and>
     (compare_epoch_and_orginal a b \<le> 0 \<and> compare_epoch_and_orginal b c \<le> 0 \<and>
      epoch_distance a b + epoch_distance b c < 2 ^ 27 \<longrightarrow>
        compare_epoch_and_orginal a c \<le> 0) \<and>
     (get_epoch_int a \<noteq> get_epoch_int b \<longrightarrow>
        (compare_epoch_and_orginal a b < 0 \<longleftrightarrow> epoch_distance a b < 2 ^ 27))"
proof -
  have half: "get_epoch_int a \<noteq> get_epoch_int b \<longrightarrow>
      (compare_epoch_and_orginal a b < 0 \<longleftrightarrow> epoch_distance a b < 2 ^ 27)"
    by (simp add: compare_epoch_and_orginal_def get_epoch_def Epoch_less_distance)
  from half compare_antisym [of a b] compare_trans [of a b c] show ?thesis
    by blast
qed

theorem compare_order_within_half_cycle_witness:
  "is_valid (stamp 7 100) \<and> is_valid (stamp 7 101) \<and> is_valid (stamp 8 1) \<and>
   get_ordinal (stamp 7 100) \<noteq> 0 \<and> get_ordinal (stamp 7 101) \<noteq> 0 \<and>
   get_ordinal (stamp 8 1) \<noteq> 0 \<and>
   epoch_distance (stamp 7 101) (stamp 8 1) \<noteq> 2 ^ 27 \<and>
   compare_epoch_and_orginal (stamp 7 101) (stamp 8 1)
     = - compare_epoch_and_orginal (stamp 8 1) (stamp 7 101) \<and>
   compare_epoch_and_orginal (stamp 7 100) (stamp 7 101) \<le> 0 \<and>
   compare_epoch_and_orginal (stamp 7 101) (stamp 8 1) \<le> 0 \<and>
   epoch_distance (stamp 7 100) (stamp 7 101) + epoch_distance (stamp 7 101) (stamp 8 1) < 2 ^ 27 \<and>
   compare_epoch_and_orginal (stamp 7 100) (stamp 8 1) \<le> 0 \<and>
   get_epoch_int (stamp 7 101) \<noteq> get_epoch_int (stamp 8 1) \<and>
   epoch_distance (stamp 7 101) (stamp 8 1) < 2 ^ 27"
proof -
  have v: "is_valid (stamp 7 100)" "is_valid (stamp 7 101)" "is_valid (stamp 8 1)"
    and n: "get_ordinal (stamp 7 100) \<noteq> 0" "get_ordinal (stamp 7 101) \<noteq> 0"
      "get_ordinal (stamp 8 1) \<noteq> 0"
    by (simp_all add: stamp_defs)
  have pre: "epoch_distance (stamp 7 101) (stamp 8 1) \<noteq> 2 ^ 27"
      "compare_epoch_and_orginal (stamp 7 100) (stamp 7 101) \<le> 0"
      "compare_epoch_and_orginal (stamp 7 101) (stamp 8 1) \<le> 0"
      "epoch_distance (stamp 7 100) (stamp 7 101) + epoch_distance (stamp 7 101) (stamp 8 1) < 2 ^ 27"
      "get_epoch_int (stamp 7 101) \<noteq> get_epoch_int (stamp 8 1)"
      "compare_epoch_and_orginal (stamp 7 101) (stamp 8 1) < 0"
    by (simp_all add: stamp_defs order_defs epoch_distance_def)
  show ?thesis
    using v n pre
      compare_order_within_half_cycle [OF v(2) v(3) v(1) n(2) n(3) n(1)]
      compare_order_within_half_cycle [OF v(1) v(2) v(3) n(1) n(2) n(3)]
    by blast
qed

section \<open>Mutual exclusion of the exclusive queue lock\<close>

lemma mcs_node_inj: "mcs_node s a = mcs_node s b \<longleftrightarrow> a = b"
  by (auto simp add: mcs_node_def)

lemma queue_shape_Nil: "queue_shape [] s \<longleftrightarrow> snd (mcs_tail s) = 0"
  by (simp add: queue_shape_def)

lemma queue_shape_Cons:
  "queue_shape (h # r) s \<longleftrightarrow>
     mcs_tail s = mcs_node s (last (h # r)) \<and>
     snd (mcs_successor s (mcs_node s (last (h # r)))) = 0 \<and>
     head_ok s h \<and> queue_links s h r"
  by (simp add: queue_shape_def)

lemma queue_link_frame:
  assumes "mcs_blocks s' p = mcs_blocks s p" "mcs_blocks s' t = mcs_blocks s t"
    and "mcs_successor s' (mcs_node s p) = mcs_successor s (mcs_node s p)"
    and "mcs_pc s' t = mcs_pc s t" "mcs_waiting s' t = mcs_waiting s t"
  shows "queue_link s' p t = queue_link s p t"
  using assms by (simp add: queue_link_def mcs_node_def)

lemma queue_links_frame:
  assumes "\<forall>u\<in>set (p # r). mcs_blocks s' u = mcs_blocks s u \<and>
             mcs_successor s' (mcs_node s u) = mcs_successor s (mcs_node s u)"
    and "\<forall>u\<in>set r. mcs_pc s' u = mcs_pc s u \<and> mcs_waiting s' u = mcs_waiting s u"
  shows "queue_links s' p r = queue_links s p r"
  using assms
proof (induction r arbitrary: p)
  case Nil
  show ?case by simp
next
  case (Cons t r)
  have "queue_link s' p t = queue_link s p t"
    using Cons.prems by (intro queue_link_frame) simp_all
  moreover have "queue_links s' t r = queue_links s t r"
    using Cons.prems by (intro Cons.IH) simp_all
  ultimately show ?case by simp
qed

lemma queue_links_append: "queue_links s p (r @ [t]) \<longleftrightarrow> queue_links s p r \<and> queue_link s (last (p # r)) t"
  by (induction r arbitrary: p) auto

lemma queue_links_waiters:
  "queue_links s p r \<Longrightarrow> t \<in> set r \<Longrightarrow>
     (\<exists>n. mcs_pc s t = Publish n) \<or> (mcs_pc s t = Spinning \<and> mcs_waiting s t)"
  by (induction r arbitrary: p) (auto simp add: queue_link_def)

lemma queue_inv_head:
  assumes "queue_inv q s" and "in_queue (mcs_pc s t)"
    and "\<forall>n. mcs_pc s t \<noteq> Publish n" and "mcs_pc s t = Spinning \<longrightarrow> \<not> mcs_waiting s t"
  shows "\<exists>r. q = t # r"
proof (cases q)
  case Nil
  then show ?thesis
    using assms by (simp add: queue_inv_def queue_basics_def)
next
  case (Cons h r)
  have "t \<in> set q"
    using assms by (simp add: queue_inv_def queue_basics_def)
  moreover have "queue_links s h r"
    using assms(1) Cons by (simp add: queue_inv_def queue_shape_Cons)
  then have "t \<notin> set r"
    using queue_links_waiters [of s h r t] assms(3,4) by auto
  ultimately show ?thesis
    using Cons by simp
qed

lemma head_ok_frame:
  assumes "mcs_blocks s' h = mcs_blocks s h"
    and "mcs_successor s' (mcs_node s h) = mcs_successor s (mcs_node s h)"
    and "mcs_pc s' h = mcs_pc s h" "mcs_waiting s' h = mcs_waiting s h"
  shows "head_ok s' h = head_ok s h"
  using assms by (simp add: head_ok_def mcs_node_def)

lemma queue_shape_frame:
  assumes same: "\<forall>u\<in>set q. mcs_blocks s' u = mcs_blocks s u \<and>
        mcs_successor s' (mcs_node s u) = mcs_successor s (mcs_node s u) \<and>
        mcs_pc s' u = mcs_pc s u \<and> mcs_waiting s' u = mcs_waiting s u"
    and tail: "mcs_tail s' = mcs_tail s"
    and old: "queue_shape q s"
  shows "queue_shape q s'"
proof (cases q)
  case Nil
  then show ?thesis
    using old tail by (simp add: queue_shape_Nil)
next
  case (Cons h r)
  have l: "last (h # r) \<in> set (h # r)"
    by (rule last_in_set) simp
  have node: "mcs_node s' (last (h # r)) = mcs_node s (last (h # r))"
    using same l Cons by (simp add: mcs_node_def)
  have succ: "mcs_successor s' (mcs_node s (last (h # r))) = mcs_successor s (mcs_node s (last (h # r)))"
    using same l Cons by blast
  have head: "head_ok s' h = head_ok s h"
    using same Cons by (intro head_ok_frame) simp_all
  have ch: "queue_links s' h r = queue_links s h r"
    using same Cons by (intro queue_links_frame) simp_all
  show ?thesis
    using old tail node succ head ch unfolding Cons queue_shape_Cons by simp
qed

lemma step_Idle:
  assumes inv: "queue_inv q s" and pc: "mcs_pc s t = Idle"
  shows "queue_inv q (thread_step t s)"
proof -
  define s' where "s' = thread_step t s"
  have s': "s' = s\<lparr>mcs_blocks := (mcs_blocks s)(t := Suc (mcs_blocks s t)),
             mcs_successor := (mcs_successor s)((t, Suc (mcs_blocks s t)) := no_node),
             mcs_waiting := (mcs_waiting s)(t := True),
             mcs_pc := (mcs_pc s)(t := Enqueue)\<rparr>"
    using pc by (simp add: s'_def thread_step_def)
  have tq: "t \<notin> set q"
    using inv pc by (simp add: queue_inv_def queue_basics_def in_queue_def)
  have basics: "queue_basics q s'"
    using inv tq by (auto simp add: queue_inv_def queue_basics_def s' in_queue_def mcs_node_def no_node_def)
  have "queue_shape q s'"
  proof (rule queue_shape_frame)
    show "\<forall>u\<in>set q. mcs_blocks s' u = mcs_blocks s u \<and>
        mcs_successor s' (mcs_node s u) = mcs_successor s (mcs_node s u) \<and>
        mcs_pc s' u = mcs_pc s u \<and> mcs_waiting s' u = mcs_waiting s u"
      using tq by (auto simp add: s' mcs_node_def)
    show "mcs_tail s' = mcs_tail s"
      by (simp add: s')
    show "queue_shape q s"
      using inv by (simp add: queue_inv_def)
  qed
  with basics show ?thesis
    unfolding s'_def [symmetric] queue_inv_def by simp
qed

lemma step_Enqueue:
  assumes inv: "queue_inv q s" and pc: "mcs_pc s t = Enqueue"
  shows "queue_inv (q @ [t]) (thread_step t s)"
proof -
  define s' where "s' = thread_step t s"
  have s': "s' = s\<lparr>mcs_tail := mcs_node s t,
      mcs_pc := (mcs_pc s)(t := if snd (mcs_tail s) = 0 then Holding else Publish (mcs_tail s))\<rparr>"
    using pc by (simp add: s'_def thread_step_def)
  have tq: "t \<notin> set q"
    using inv pc by (simp add: queue_inv_def queue_basics_def in_queue_def)
  have mine: "mcs_waiting s t" "snd (mcs_successor s (mcs_node s t)) = 0"
    using inv pc by (simp_all add: queue_inv_def queue_basics_def)
  have basics: "queue_basics (q @ [t]) s'"
    using inv tq pc by (auto simp add: queue_inv_def queue_basics_def s' in_queue_def mcs_node_def)
  have "queue_shape (q @ [t]) s'"
  proof (cases q)
    case Nil
    then have "snd (mcs_tail s) = 0"
      using inv by (simp add: queue_inv_def queue_shape_Nil)
    then show ?thesis
      using Nil mine by (simp add: queue_shape_Cons s' mcs_node_def head_ok_def)
  next
    case (Cons h r)
    have old: "mcs_tail s = mcs_node s (last (h # r))"
      "snd (mcs_successor s (mcs_node s (last (h # r)))) = 0" "head_ok s h" "queue_links s h r"
      using inv Cons by (simp_all add: queue_inv_def queue_shape_Cons)
    have l: "last (h # r) \<in> set q"
      unfolding Cons by (rule last_in_set) simp
    then have "in_queue (mcs_pc s (last (h # r)))"
      using inv by (simp add: queue_inv_def queue_basics_def)
    then have "0 < mcs_blocks s (last (h # r))"
      using inv by (simp add: queue_inv_def queue_basics_def in_queue_def)
    then have locked: "snd (mcs_tail s) \<noteq> 0"
      using old(1) by (simp add: mcs_node_def)
    have ht: "h \<noteq> t"
      using tq Cons by auto
    have head: "head_ok s' h"
      using old(3) ht by (simp add: head_ok_def s' mcs_node_def)
    have "queue_links s' h r = queue_links s h r"
      using tq Cons by (intro queue_links_frame) (auto simp add: s')
    moreover have "queue_link s' (last (h # r)) t"
      using old(1,2) locked by (simp add: queue_link_def s' mcs_node_def)
    ultimately have ch: "queue_links s' h (r @ [t])"
      using old(4) by (simp add: queue_links_append)
    show ?thesis
      using head ch mine(2) unfolding Cons by (simp add: queue_shape_Cons s' mcs_node_def)
  qed
  with basics show ?thesis
    unfolding s'_def [symmetric] queue_inv_def by simp
qed

lemma queue_links_publish:
  assumes "queue_links s h r" and "t \<in> set r" and "distinct (h # r)"
    and "mcs_pc s t = Publish p" and "mcs_waiting s t"
    and "s' = s\<lparr>mcs_successor := (mcs_successor s)(p := mcs_node s t),
                 mcs_pc := (mcs_pc s)(t := Spinning)\<rparr>"
  shows "queue_links s' h r \<and>
    (\<exists>u\<in>set (h # r). u \<noteq> last (h # r) \<and> p = mcs_node s u \<and>
        snd (mcs_successor s (mcs_node s u)) = 0)"
  using assms(1-5)
proof (induction r arbitrary: h)
  case Nil
  then show ?case by simp
next
  case (Cons x r)
  note s' = assms(6)
  have lx: "last (x # r) \<in> set (x # r)"
    by (rule last_in_set) simp
  show ?case
  proof (cases "x = t")
    case True
    have p: "p = mcs_node s h" "snd (mcs_successor s (mcs_node s h)) = 0"
      using Cons.prems(1,4) True by (simp_all add: queue_link_def)
    have "queue_link s' h t"
      using Cons.prems(5) p by (simp add: queue_link_def s' mcs_node_def)
    moreover have "queue_links s' t r = queue_links s t r"
      using Cons.prems(3) True p by (intro queue_links_frame) (auto simp add: s' mcs_node_def)
    moreover have "h \<noteq> last (h # x # r)"
      using Cons.prems(3) lx by auto
    ultimately show ?thesis
      using Cons.prems(1) True p by auto
  next
    case False
    then have "t \<in> set r"
      using Cons.prems(2) by simp
    then have ih: "queue_links s' x r \<and>
      (\<exists>u\<in>set (x # r). u \<noteq> last (x # r) \<and> p = mcs_node s u \<and>
          snd (mcs_successor s (mcs_node s u)) = 0)"
      using Cons.prems by (intro Cons.IH) simp_all
    then obtain u where u: "u \<in> set (x # r)" "u \<noteq> last (x # r)" "p = mcs_node s u"
        "snd (mcs_successor s (mcs_node s u)) = 0"
      by blast
    have "u \<noteq> h"
      using u(1) Cons.prems(3) by auto
    then have "queue_link s' h x = queue_link s h x"
      using False u(3) by (intro queue_link_frame) (simp_all add: s' mcs_node_def)
    then have "queue_links s' h (x # r)"
      using ih Cons.prems(1) by simp
    then show ?thesis
      using u by auto
  qed
qed

lemma step_Publish:
  assumes inv: "queue_inv q s" and pc: "mcs_pc s t = Publish p"
  shows "queue_inv q (thread_step t s)"
proof -
  define s' where "s' = thread_step t s"
  have s': "s' = s\<lparr>mcs_successor := (mcs_successor s)(p := mcs_node s t),
                 mcs_pc := (mcs_pc s)(t := Spinning)\<rparr>"
    using pc by (simp add: s'_def thread_step_def)
  have tq: "t \<in> set q" and w: "mcs_waiting s t" and d: "distinct q"
    using inv pc by (simp_all add: queue_inv_def queue_basics_def in_queue_def)
  then obtain h r where q: "q = h # r"
    by (cases q) auto
  have old: "mcs_tail s = mcs_node s (last (h # r))"
      "snd (mcs_successor s (mcs_node s (last (h # r)))) = 0" "head_ok s h" "queue_links s h r"
    using inv q by (simp_all add: queue_inv_def queue_shape_Cons)
  have "\<forall>n. mcs_pc s h \<noteq> Publish n"
    using old(3) by (simp add: head_ok_def)
  then have ht: "h \<noteq> t"
    using pc by blast
  then have tr: "t \<in> set r"
    using tq q by simp
  have "queue_links s' h r \<and>
    (\<exists>u\<in>set (h # r). u \<noteq> last (h # r) \<and> p = mcs_node s u \<and>
        snd (mcs_successor s (mcs_node s u)) = 0)"
    using old(4) tr d pc w s' unfolding q by (rule queue_links_publish)
  then obtain u where ch: "queue_links s' h r" and u: "u \<in> set q" "u \<noteq> last (h # r)"
      "p = mcs_node s u" "snd (mcs_successor s (mcs_node s u)) = 0"
    unfolding q by blast
  have head: "head_ok s' h"
    using old(3) ht u(3,4) by (auto simp add: head_ok_def s' mcs_node_def)
  have shape: "queue_shape q s'"
    using old(1,2) head ch u(2,3) unfolding q
    by (auto simp add: queue_shape_Cons s' mcs_node_def)
  have "\<forall>e. mcs_pc s e = Enqueue \<longrightarrow> e \<noteq> u"
    using inv u(1) by (auto simp add: queue_inv_def queue_basics_def in_queue_def)
  then have basics: "queue_basics q s'"
    using inv tq u(3) by (auto simp add: queue_inv_def queue_basics_def s' in_queue_def mcs_node_def)
  with shape show ?thesis
    unfolding s'_def [symmetric] queue_inv_def by simp
qed

lemma head_moves:
  assumes inv: "queue_inv (h # r) s"
    and c: "in_queue c" "\<forall>p. c \<noteq> Publish p" "c \<noteq> Spinning"
      "\<forall>n. c = Unblock n \<longrightarrow> n = mcs_successor s (mcs_node s h) \<and> snd n \<noteq> 0"
  shows "queue_inv (h # r) (s\<lparr>mcs_pc := (mcs_pc s)(h := c)\<rparr>)"
proof -
  define s' where "s' = s\<lparr>mcs_pc := (mcs_pc s)(h := c)\<rparr>"
  have d: "h \<notin> set r"
    using inv by (simp add: queue_inv_def queue_basics_def)
  have old: "mcs_tail s = mcs_node s (last (h # r))"
      "snd (mcs_successor s (mcs_node s (last (h # r)))) = 0" "head_ok s h" "queue_links s h r"
    using inv by (simp_all add: queue_inv_def queue_shape_Cons)
  have "queue_links s' h r = queue_links s h r"
    using d by (intro queue_links_frame) (auto simp add: s'_def)
  moreover have "head_ok s' h"
    using c by (simp add: head_ok_def s'_def mcs_node_def)
  ultimately have shape: "queue_shape (h # r) s'"
    using old by (simp add: queue_shape_Cons s'_def mcs_node_def)
  have "queue_basics (h # r) s'"
    using inv c by (auto simp add: queue_inv_def queue_basics_def s'_def in_queue_def mcs_node_def)
  with shape show ?thesis
    unfolding s'_def [symmetric] queue_inv_def by simp
qed

lemma step_cas_ok:
  assumes inv: "queue_inv (t # r) s" and cas: "mcs_tail s = mcs_node s t"
  shows "queue_inv [] (s\<lparr>mcs_tail := no_node, mcs_pc := (mcs_pc s)(t := Idle)\<rparr>)"
proof -
  have "mcs_node s (last (t # r)) = mcs_node s t"
    using inv cas by (simp add: queue_inv_def queue_shape_Cons)
  then have "last (t # r) = t"
    by (simp only: mcs_node_inj)
  moreover have "t \<notin> set r"
    using inv by (simp add: queue_inv_def queue_basics_def)
  ultimately have r: "r = []"
    using last_in_set [of r] by (cases r) auto
  have "queue_basics [] (s\<lparr>mcs_tail := no_node, mcs_pc := (mcs_pc s)(t := Idle)\<rparr>)"
    using inv unfolding r
    by (auto simp add: queue_inv_def queue_basics_def in_queue_def mcs_node_def)
  then show ?thesis
    by (simp add: queue_inv_def queue_shape_Nil no_node_def)
qed

lemma step_Unblock:
  assumes inv: "queue_inv (t # r) s" and pc: "mcs_pc s t = Unblock n"
  shows "queue_inv r (s\<lparr>mcs_waiting := (mcs_waiting s)(fst n := False),
                         mcs_pc := (mcs_pc s)(t := Idle)\<rparr>)"
proof -
  define s' where "s' = s\<lparr>mcs_waiting := (mcs_waiting s)(fst n := False),
                         mcs_pc := (mcs_pc s)(t := Idle)\<rparr>"
  have old: "mcs_tail s = mcs_node s (last (t # r))"
      "snd (mcs_successor s (mcs_node s (last (t # r)))) = 0" "head_ok s t" "queue_links s t r"
    using inv by (simp_all add: queue_inv_def queue_shape_Cons)
  have d: "t \<notin> set r" "distinct r"
    using inv by (simp_all add: queue_inv_def queue_basics_def)
  have n: "n = mcs_successor s (mcs_node s t)" "snd n \<noteq> 0"
    using old(3) pc unfolding head_ok_def by blast+
  then have "r \<noteq> []"
    using old(2) by auto
  then obtain x r' where r: "r = x # r'"
    by (cases r) auto
  have "queue_link s t x"
    using old(4) r by simp
  then have x: "mcs_pc s x = Spinning" "mcs_waiting s x" "n = mcs_node s x"
    using n by (auto simp add: queue_link_def)
  have fst_n: "fst n = x"
    using x(3) by (simp add: mcs_node_def)
  have xt: "x \<noteq> t" "x \<notin> set r'"
    using d r by auto
  have head: "head_ok s' x"
    using x(1) xt(1) by (simp add: head_ok_def s'_def fst_n)
  have "queue_links s' x r' = queue_links s x r'"
    using d r xt by (intro queue_links_frame) (auto simp add: s'_def fst_n)
  then have ch: "queue_links s' x r'"
    using old(4) r by simp
  have shape: "queue_shape r s'"
    using old(1,2) head ch unfolding r by (simp add: queue_shape_Cons s'_def mcs_node_def)
  have "queue_basics r s'"
    using inv pc x(1) d(1) unfolding r
    by (auto simp add: queue_inv_def queue_basics_def s'_def in_queue_def mcs_node_def fst_n)
  with shape show ?thesis
    unfolding s'_def [symmetric] queue_inv_def by simp
qed

lemma mcs_inv_init: "mcs_inv mcs_init"
proof -
  have "queue_inv [] mcs_init"
    by (simp add: queue_inv_def queue_basics_def queue_shape_Nil mcs_init_def in_queue_def
        no_node_def)
  then show ?thesis
    unfolding mcs_inv_def by blast
qed

lemma mcs_inv_step:
  assumes "mcs_inv s"
  shows "mcs_inv (thread_step t s)"
proof -
  obtain q where inv: "queue_inv q s"
    using assms unfolding mcs_inv_def by blast
  have head: "\<exists>r. q = t # r"
    if "in_queue (mcs_pc s t)" "\<forall>n. mcs_pc s t \<noteq> Publish n"
      "mcs_pc s t = Spinning \<longrightarrow> \<not> mcs_waiting s t"
    using inv that by (rule queue_inv_head)
  show ?thesis
  proof (cases "mcs_pc s t")
    case Idle
    then have "queue_inv q (thread_step t s)"
      using inv by (intro step_Idle)
    then show ?thesis
      unfolding mcs_inv_def by blast
  next
    case Enqueue
    then have "queue_inv (q @ [t]) (thread_step t s)"
      using inv by (intro step_Enqueue)
    then show ?thesis
      unfolding mcs_inv_def by blast
  next
    case (Publish p)
    then have "queue_inv q (thread_step t s)"
      using inv by (intro step_Publish)
    then show ?thesis
      unfolding mcs_inv_def by blast
  next
    case Spinning
    show ?thesis
    proof (cases "mcs_waiting s t")
      case True
      then have "thread_step t s = s"
        using Spinning by (simp add: thread_step_def)
      then show ?thesis
        using assms by simp
    next
      case False
      then obtain r where q: "q = t # r"
        using head Spinning by (auto simp add: in_queue_def)
      have "queue_inv (t # r) (s\<lparr>mcs_pc := (mcs_pc s)(t := Holding)\<rparr>)"
        using inv unfolding q by (rule head_moves) (simp_all add: in_queue_def)
      moreover have "thread_step t s = s\<lparr>mcs_pc := (mcs_pc s)(t := Holding)\<rparr>"
        using Spinning False by (simp add: thread_step_def)
      ultimately show ?thesis
        unfolding mcs_inv_def by auto
    qed
  next
    case Holding
    then obtain r where q: "q = t # r"
      using head by (auto simp add: in_queue_def)
    have "queue_inv (t # r) (s\<lparr>mcs_pc := (mcs_pc s)(t := ReleaseStart)\<rparr>)"
      using inv unfolding q by (rule head_moves) (simp_all add: in_queue_def)
    moreover have "thread_step t s = s\<lparr>mcs_pc := (mcs_pc s)(t := ReleaseStart)\<rparr>"
      using Holding by (simp add: thread_step_def)
    ultimately show ?thesis
      unfolding mcs_inv_def by auto
  next
    case ReleaseStart
    then obtain r where q: "q = t # r"
      using head by (auto simp add: in_queue_def)
    define c where "c = (if snd (mcs_successor s (mcs_node s t)) = 0 then ReleaseCas
        else Unblock (mcs_successor s (mcs_node s t)))"
    have "queue_inv (t # r) (s\<lparr>mcs_pc := (mcs_pc s)(t := c)\<rparr>)"
      using inv unfolding q by (rule head_moves) (auto simp add: in_queue_def c_def)
    moreover have "thread_step t s = s\<lparr>mcs_pc := (mcs_pc s)(t := c)\<rparr>"
      using ReleaseStart by (simp add: thread_step_def c_def)
    ultimately show ?thesis
      unfolding mcs_inv_def by auto
  next
    case ReleaseCas
    then obtain r where q: "q = t # r"
      using head by (auto simp add: in_queue_def)
    show ?thesis
    proof (cases "mcs_tail s = mcs_node s t")
      case True
      have "queue_inv [] (s\<lparr>mcs_tail := no_node, mcs_pc := (mcs_pc s)(t := Idle)\<rparr>)"
        using inv True unfolding q by (rule step_cas_ok)
      moreover have "thread_step t s = s\<lparr>mcs_tail := no_node, mcs_pc := (mcs_pc s)(t := Idle)\<rparr>"
        using ReleaseCas True by (simp add: thread_step_def)
      ultimately show ?thesis
        unfolding mcs_inv_def by auto
    next
      case False
      have "queue_inv (t # r) (s\<lparr>mcs_pc := (mcs_pc s)(t := ReleaseWait)\<rparr>)"
        using inv unfolding q by (rule head_moves) (simp_all add: in_queue_def)
      moreover have "thread_step t s = s\<lparr>mcs_pc := (mcs_pc s)(t := ReleaseWait)\<rparr>"
        using ReleaseCas False by (simp add: thread_step_def)
      ultimately show ?thesis
        unfolding mcs_inv_def by auto
    qed
  next
    case ReleaseWait
    then obtain r where q: "q = t # r"
      using head by (auto simp add: in_queue_def)
    show ?thesis
    proof (cases "snd (mcs_successor s (mcs_node s t)) = 0")
      case True
      then have "thread_step t s = s"
        using ReleaseWait by (simp add: thread_step_def)
      then show ?thesis
        using assms by simp
    next
      case False
      have "queue_inv (t # r)
          (s\<lparr>mcs_pc := (mcs_pc s)(t := Unblock (mcs_successor s (mcs_node s t)))\<rparr>)"
        using inv unfolding q by (rule head_moves) (use False in \<open>auto simp add: in_queue_def\<close>)
      moreover have "thread_step t s =
          s\<lparr>mcs_pc := (mcs_pc s)(t := Unblock (mcs_successor s (mcs_node s t)))\<rparr>"
        using ReleaseWait False by (simp add: thread_step_def)
      ultimately show ?thesis
        unfolding mcs_inv_def by auto
    qed
  next
    case (Unblock n)
    then obtain r where q: "q = t # r"
      using head by (auto simp add: in_queue_def)
    have "queue_inv r (s\<lparr>mcs_waiting := (mcs_waiting s)(fst n := False),
                         mcs_pc := (mcs_pc s)(t := Idle)\<rparr>)"
      using inv Unblock unfolding q by (rule step_Unblock)
    moreover have "thread_step t s = s\<lparr>mcs_waiting := (mcs_waiting s)(fst n := False),
                         mcs_pc := (mcs_pc s)(t := Idle)\<rparr>"
      using Unblock by (simp add: thread_step_def)
    ultimately show ?thesis
      unfolding mcs_inv_def by auto
  qed
qed

lemma mcs_inv_run: "mcs_inv s \<Longrightarrow> mcs_inv (mcs_run schedule s)"
  by (induction schedule arbitrary: s) (simp_all add: mcs_inv_step)

lemma mcs_inv_one_holder:
  assumes "mcs_inv s" and "mcs_pc s t1 = Holding" and "mcs_pc s t2 = Holding"
  shows "t1 = t2"
proof -
  obtain q where inv: "queue_inv q s"
    using assms(1) unfolding mcs_inv_def by blast
  have "\<exists>r. q = t1 # r"
    using inv by (rule queue_inv_head) (simp_all add: assms(2) in_queue_def)
  moreover have "\<exists>r. q = t2 # r"
    using inv by (rule queue_inv_head) (simp_all add: assms(3) in_queue_def)
  ultimately show ?thesis
    by auto
qed

theorem mutual_exclusion:
  "is_holder (mcs_run schedule mcs_init) t1 \<Longrightarrow> is_holder (mcs_run schedule mcs_init) t2 \<Longrightarrow> t1 = t2"
  using mcs_inv_one_holder [OF mcs_inv_run [OF mcs_inv_init]]
  unfolding is_holder_def by blast

text \<open>
  C9. Mutual exclusion of the exclusive queue lock: along every interleaving of threads
  that call acquire and release on the same lock, starting from the zero lock, at most one
  thread at a time is the holder, that is, between the return of its own acquire and its
  own call of release.
\<close>

theorem McsLock_mutual_exclusion:
  "is_holder (mcs_run schedule mcs_init) t1 \<Longrightarrow>
   is_holder (mcs_run schedule mcs_init) t2 \<Longrightarrow> t1 = t2"
  using mcs_inv_one_holder [OF mcs_inv_run [OF mcs_inv_init]]
  unfolding is_holder_def by blast

theorem McsLock_mutual_exclusion_witness:
  "is_holder (mcs_run [1, 1, 2, 2, 2, 2] mcs_init) 1 \<and>
   mcs_pc (mcs_run [1, 1, 2, 2, 2, 2] mcs_init) 2 = Spinning \<and>
   mcs_tail (mcs_run [1, 1, 2, 2, 2, 2] mcs_init) = (2, 1) \<and>
   \<not> is_holder (mcs_run [1, 1, 2, 2, 2, 2] mcs_init) 2 \<and>
   is_holder (mcs_run [1, 1, 2, 2, 1, 1, 1, 2, 1, 1, 2] mcs_init) 2 \<and>
   \<not> is_holder (mcs_run [1, 1, 2, 2, 1, 1, 1, 2, 1, 1, 2] mcs_init) 1"
proof -
  have first: "is_holder (mcs_run [1, 1, 2, 2, 2, 2] mcs_init) 1"
    by code_simp
  have queued: "mcs_pc (mcs_run [1, 1, 2, 2, 2, 2] mcs_init) 2 = Spinning"
    "mcs_tail (mcs_run [1, 1, 2, 2, 2, 2] mcs_init) = (2, 1)"
    by code_simp+
  have second: "is_holder (mcs_run [1, 1, 2, 2, 1, 1, 1, 2, 1, 1, 2] mcs_init) 2"
    by code_simp
  have "(1 :: ThreadId) \<noteq> 2" and "(2 :: ThreadId) \<noteq> 1"
    by simp_all
  then show ?thesis
    using first queued second
      McsLock_mutual_exclusion [OF first, of 2]
      McsLock_mutual_exclusion [OF second, of 1]
    by blast
qed

end
